theory Spec2Isabelle
  imports Main "HOL-Library.Multiset"
begin

section \<open>Data model of package secrets\<close>

text \<open>
  Go strings and byte slices are both byte sequences; they are modelled as \<open>string\<close>
  (a list of 8-bit characters). A nil slice and an empty slice are both \<open>[]\<close>.

  A Go \<open>error\<close> is either an opaque error handed back by a collaborator (the S3 client,
  the ssh-agent, the sink) or one built by \<open>fmt.Errorf\<close>. The latter is kept as the
  format string of the source together with its operands, tagged by the verb that consumes
  them (\<open>%s\<close>, \<open>%q\<close>, \<open>%d\<close>, \<open>%v\<close>, \<open>%w\<close>); the same representation is used for the lines
  handed to the logger.
\<close>

datatype error = Err string | Errorf string "fmtarg list"
  and fmtarg = ArgS string | ArgQ string | ArgD nat | ArgV error | ArgW error

datatype logline = Printf string "fmtarg list" | Println error

text \<open>\<open>type getResult struct { bucket, key string; data []byte; err error }\<close>\<close>

record getResult =
  bucket :: string
  key :: string
  data :: string
  err :: "error option"

text \<open>
  \<open>type Config struct\<close>. The interface-typed fields are the behaviour of the collaborator:
  \<^item> \<open>Client\<close>: \<open>Get(bucket, key)\<close> and \<open>BucketExists(bucket)\<close>;
  \<^item> \<open>SSHAgent\<close>: \<open>Add(key)\<close>, whose answer may depend on the keys added before, and \<open>Pid()\<close>;
  \<^item> \<open>EnvSink\<close>: an \<open>io.Writer\<close>; its answer to a write may depend on the payloads written
    before. Only the error of a write is kept (a short write surfaces as an error in
    \<open>bytes.Reader.WriteTo\<close> and \<open>io.WriteString\<close>).
  The logger is the \<open>logs\<close> component of the world below.
\<close>

record Config =
  Repo :: string
  Bucket :: string
  Prefix :: string
  Client_Get :: "string \<Rightarrow> string \<Rightarrow> string \<times> error option"
  Client_BucketExists :: "string \<Rightarrow> bool \<times> error option"
  SSHAgent_Add :: "string list \<Rightarrow> string \<Rightarrow> error option"
  SSHAgent_Pid :: nat
  EnvSink_Write :: "string list \<Rightarrow> string \<Rightarrow> error option"
  GitCredentialHelper :: string

text \<open>
  Everything a run does to the outside: the lines given to \<open>conf.Logger\<close>, the keys
  passed to \<open>SSHAgent.Add\<close>, the payloads passed to \<open>EnvSink\<close>, and the
  \<open>(bucket, key)\<close> pairs passed to \<open>Client.Get\<close>, each in call order.
\<close>

record world =
  logs :: "logline list"
  adds :: "string list"
  sink :: "string list"
  gets :: "(string \<times> string) list"

text \<open>A function either returns its \<open>error\<close> (nil is \<open>None\<close>) or panics.\<close>

datatype outcome = Return "error option" | Panic string

definition log_Printf :: "string \<Rightarrow> fmtarg list \<Rightarrow> world \<Rightarrow> world" where
  "log_Printf f args w = w\<lparr>logs := logs w @ [Printf f args]\<rparr>"

definition log_Println :: "error \<Rightarrow> world \<Rightarrow> world" where
  "log_Println e w = w\<lparr>logs := logs w @ [Println e]\<rparr>"

text \<open>\<open>strings.HasPrefix(s, prefix)\<close>: \<open>len(s) >= len(prefix) && s[:len(prefix)] == prefix\<close>.\<close>

definition HasPrefix :: "string \<Rightarrow> string \<Rightarrow> bool" where
  "HasPrefix s p = (length p \<le> length s \<and> take (length p) s = p)"

text \<open>\<open>strings.Join(elems, sep)\<close>.\<close>

fun Join :: "string list \<Rightarrow> string \<Rightarrow> string" where
  "Join [] sep = []"
| "Join [x] sep = x"
| "Join (x # y # ys) sep = x @ sep @ Join (y # ys) sep"

text \<open>
  \<open>fmt.Sprintf\<close> restricted to the verb the source uses with it, \<open>%s\<close> on string operands:
  the format is scanned once from the left, each \<open>%s\<close> is replaced by the next operand,
  and operands are copied as they are (they are not scanned for verbs). A \<open>%s\<close> with no
  operand left prints \<open>%!s(MISSING)\<close>, as in Go.
\<close>

fun Sprintf :: "string \<Rightarrow> string list \<Rightarrow> string" where
  "Sprintf [] args = []"
| "Sprintf [c] args = [c]"
| "Sprintf (c # d # f) args =
     (if c = CHR ''%'' \<and> d = CHR ''s'' then
        (case args of
           [] \<Rightarrow> ''%!s(MISSING)'' @ Sprintf f []
         | a # as \<Rightarrow> a @ Sprintf f as)
      else c # Sprintf (d # f) args)"

section \<open>The handlers\<close>

text \<open>
  A handler ranges over its results channel. The channel is read strictly in order, so the
  handler is a recursion over the list of results the channel delivers; results after an
  early \<open>return\<close> are never received.
\<close>

text \<open>
  The \<open>for r := range results\<close> loop of \<open>handleSSHKeys\<close>, with the loop variable
  \<open>keyFound\<close>. \<open>Inl e\<close> is the \<open>return\<close> inside the loop, \<open>Inr keyFound\<close> the normal
  exit of the loop.
\<close>

fun handleSSHKeys_loop ::
  "Config \<Rightarrow> bool \<Rightarrow> getResult list \<Rightarrow> world \<Rightarrow> (error + bool) \<times> world" where
  "handleSSHKeys_loop conf keyFound [] w = (Inr keyFound, w)"
| "handleSSHKeys_loop conf keyFound (r # rs) w =
     (case err r of
        Some e \<Rightarrow>
          handleSSHKeys_loop conf keyFound rs
            (log_Printf ''+++ :warning: Failed to download ssh-key %s/%s: %v''
               [ArgS (bucket r), ArgS (key r), ArgV e] w)
      | None \<Rightarrow>
          (let w1 = log_Printf ''Loading %s/%s (%d bytes) into ssh-agent (pid %d)''
                      [ArgS (bucket r), ArgS (key r), ArgD (length (data r)),
                       ArgD (SSHAgent_Pid conf)] w;
               w2 = w1\<lparr>adds := adds w1 @ [data r]\<rparr>
           in case SSHAgent_Add conf (adds w1) (data r) of
                Some e \<Rightarrow> (Inl (Errorf ''ssh-agent add: %w'' [ArgW e]), w2)
              | None \<Rightarrow> handleSSHKeys_loop conf True rs w2))"

definition handleSSHKeys :: "Config \<Rightarrow> getResult list \<Rightarrow> world \<Rightarrow> outcome \<times> world" where
  "handleSSHKeys conf results w =
     (case handleSSHKeys_loop conf False results w of
        (Inl e, w1) \<Rightarrow> (Return (Some e), w1)
      | (Inr keyFound, w1) \<Rightarrow>
          if \<not> keyFound \<and> HasPrefix (Repo conf) ''git@'' then
            (Return None,
             log_Printf ''See https://github.com/buildkite/elastic-ci-stack-for-aws#build-secrets for more information.'' []
               (log_Printf ''The repository %q appears to use SSH for transport, but the elastic-ci-stack-s3-secrets-hooks plugin did not find any SSH keys in the %q S3 bucket.''
                  [ArgQ (Repo conf), ArgQ (Bucket conf)]
                  (log_Printf ''+++ :warning: Failed to find an SSH key in secret bucket'' [] w1)))
          else (Return None, w1))"

text \<open>
  \<open>handleEnvs\<close>. \<open>data[len(data)-1]\<close> on an empty slice is an index out of range, which
  panics. \<open>bytes.NewReader(data).WriteTo(conf.EnvSink)\<close> hands the whole of \<open>data\<close>
  (never empty at that point) to the sink in one write.
\<close>

fun handleEnvs :: "Config \<Rightarrow> getResult list \<Rightarrow> world \<Rightarrow> outcome \<times> world" where
  "handleEnvs conf [] w = (Return None, w)"
| "handleEnvs conf (r # rs) w =
     (case err r of
        Some e \<Rightarrow>
          handleEnvs conf rs
            (log_Printf ''+++ :warning: Failed to download env from %s/%s: %v''
               [ArgS (bucket r), ArgS (key r), ArgV e] w)
      | None \<Rightarrow>
          if data r = [] then (Panic ''runtime error: index out of range [-1]'', w)
          else
            (let d = (if last (data r) \<noteq> CHR 0x0A then data r @ [CHR 0x0A] else data r);
                 w1 = log_Printf ''Loading %s/%s (%d bytes) of env''
                        [ArgS (bucket r), ArgS (key r), ArgD (length (data r))] w;
                 w2 = w1\<lparr>sink := sink w1 @ [d]\<rparr>
             in case EnvSink_Write conf (sink w1) d of
                  Some e \<Rightarrow> (Return (Some (Errorf ''copying env: %w'' [ArgW e])), w2)
                | None \<Rightarrow> handleEnvs conf rs w2))"

text \<open>
  The loop of \<open>handleGitCredentials\<close>, with the loop variable \<open>helpers\<close>. The character
  \<open>CHR 0x27\<close> is the single quote that opens and closes the format string.
\<close>

fun handleGitCredentials_loop ::
  "Config \<Rightarrow> string list \<Rightarrow> getResult list \<Rightarrow> world \<Rightarrow> string list \<times> world" where
  "handleGitCredentials_loop conf helpers [] w = (helpers, w)"
| "handleGitCredentials_loop conf helpers (r # rs) w =
     (case err r of
        Some e \<Rightarrow> handleGitCredentials_loop conf helpers rs w
      | None \<Rightarrow>
          handleGitCredentials_loop conf
            (helpers @
               [Sprintf (CHR 0x27 # ''credential.helper=%s %s %s'' @ [CHR 0x27])
                  [GitCredentialHelper conf, bucket r, key r]])
            rs
            (log_Printf ''Adding git-credentials in %s/%s as a credential helper''
               [ArgS (bucket r), ArgS (key r)] w))"

definition handleGitCredentials ::
  "Config \<Rightarrow> getResult list \<Rightarrow> world \<Rightarrow> outcome \<times> world" where
  "handleGitCredentials conf results w =
     (case handleGitCredentials_loop conf [] results w of
        (helpers, w1) \<Rightarrow>
          if length helpers = 0 then (Return None, w1)
          else
            (let env = ''GIT_CONFIG_PARAMETERS='' @ Join helpers '' '' @ [CHR 0x0A];
                 w2 = w1\<lparr>sink := sink w1 @ [env]\<rparr>
             in case EnvSink_Write conf (sink w1) env of
                  Some e \<Rightarrow>
                    (Return (Some (Errorf ''writing GIT_CONFIG_PARAMETERS env: %w'' [ArgW e])), w2)
                | None \<Rightarrow> (Return None, w2)))"

section \<open>Run\<close>

text \<open>
  \<open>GetAll\<close> sends, for the keys in the order given, the result of \<open>c.Get(bucket, k)\<close>.
  This is the stream named in its comment (``Results are sent to a channel in the
  originally requested order''); the goroutines that produce it are modelled in the
  next section.
\<close>

definition GetAll_stream ::
  "(string \<Rightarrow> string \<Rightarrow> string \<times> error option) \<Rightarrow> string \<Rightarrow> string list \<Rightarrow> getResult list" where
  "GetAll_stream get b keys =
     map (\<lambda>k. \<lparr>bucket = b, key = k, data = fst (get b k), err = snd (get b k)\<rparr>) keys"

text \<open>
  \<open>getSSHKeys\<close>, \<open>getEnvs\<close> and \<open>getGitCredentials\<close> log their keys and start \<open>GetAll\<close>
  on them. The common part takes the key list; it returns the stream the channel will
  carry and records the \<open>Get\<close> calls the started goroutines issue.
\<close>

fun log_keys :: "string list \<Rightarrow> world \<Rightarrow> world" where
  "log_keys [] w = w"
| "log_keys (k # ks) w = log_keys ks (log_Printf ''- %s'' [ArgS k] w)"

definition go_GetAll :: "Config \<Rightarrow> string list \<Rightarrow> world \<Rightarrow> getResult list \<times> world" where
  "go_GetAll conf keys w =
     (GetAll_stream (Client_Get conf) (Bucket conf) keys,
      w\<lparr>gets := gets w @ map (\<lambda>k. (Bucket conf, k)) keys\<rparr>)"

definition getSSHKeys :: "Config \<Rightarrow> world \<Rightarrow> getResult list \<times> world" where
  "getSSHKeys conf w =
     (let keys = [Prefix conf @ ''/private_ssh_key'', Prefix conf @ ''/id_rsa_github'',
                  ''private_ssh_key'', ''id_rsa_github'']
      in go_GetAll conf keys (log_keys keys (log_Printf ''Checking S3 for SSH keys:'' [] w)))"

definition getEnvs :: "Config \<Rightarrow> world \<Rightarrow> getResult list \<times> world" where
  "getEnvs conf w =
     (let keys = [''env'', ''environment'', Prefix conf @ ''/env'',
                  Prefix conf @ ''/environment'']
      in go_GetAll conf keys
           (log_keys keys (log_Printf ''Checking S3 for environment files:'' [] w)))"

definition getGitCredentials :: "Config \<Rightarrow> world \<Rightarrow> getResult list \<times> world" where
  "getGitCredentials conf w =
     (let keys = [''git-credentials'', Prefix conf @ ''/git-credentials'']
      in go_GetAll conf keys
           (log_keys keys (log_Printf ''Checking S3 for git credentials:'' [] w)))"

definition Run :: "Config \<Rightarrow> world \<Rightarrow> outcome \<times> world" where
  "Run conf w =
     (let w0 = log_Printf ''~~~ Downloading secrets from :s3: %s'' [ArgS (Bucket conf)] w
      in case Client_BucketExists conf (Bucket conf) of
        (ok, e) \<Rightarrow>
          if \<not> ok then
            (let w1 = log_Printf ''+++ :warning: Bucket %q doesn't exist'' [ArgQ (Bucket conf)] w0;
                 w2 = (case e of Some x \<Rightarrow> log_Println x w1 | None \<Rightarrow> w1)
             in (Return (Some (Errorf ''bucket %q not found'' [ArgQ (Bucket conf)])), w2))
          else
            (case getSSHKeys conf w0 of (resultsSSH, w1) \<Rightarrow>
              (case getEnvs conf w1 of (resultsEnv, w2) \<Rightarrow>
                (case getGitCredentials conf w2 of (resultsGit, w3) \<Rightarrow>
                  (case handleSSHKeys conf resultsSSH w3 of
                     (Return None, w4) \<Rightarrow>
                       (case handleEnvs conf resultsEnv w4 of
                          (Return None, w5) \<Rightarrow> handleGitCredentials conf resultsGit w5
                        | (out, w5) \<Rightarrow> (out, w5))
                   | (out, w4) \<Rightarrow> (out, w4))))))"

section \<open>GetAll: the goroutines\<close>

text \<open>
  \<open>GetAll\<close> is modelled as an interleaving of atomic steps of its goroutines: the
  calling goroutine (\<open>Main\<close>) and one goroutine per key (\<open>Go i\<close> for the \<open>i\<close>-th key).
  Program counters are named after the line of \<open>secrets.go\<close> that is executed next.

  A value of type \<open>chan<- getResult\<close> is either nil or the one results channel the
  caller passed in.
\<close>

datatype chanref = NilChan | ResultsChan

text \<open>
  A \<open>chan chan<- getResult\<close>: the values it buffers and whether it is closed. Only the
  first link is made with capacity 1; a send on the others completes together with the
  matching receive.
\<close>

record linkchan =
  l_buf :: "chanref list"
  l_closed :: bool

datatype gpc = L228 | L229 | L230 | L231 | L232 | Exited | Panicked

text \<open>
  The goroutine started at line 227: its argument \<open>k\<close>, its locals \<open>data\<close>, \<open>err\<close> and
  \<open>results\<close>. The \<open>i\<close>-th goroutine is started with the \<open>i\<close>-th link as \<open>link\<close> and the
  link made in its iteration, the \<open>i+1\<close>-th, as \<open>nextLink\<close>.
\<close>

record goroutine =
  g_pc :: gpc
  g_k :: string
  g_data :: string
  g_err :: "error option"
  g_results :: chanref

text \<open>
  The caller: \<open>M221\<close> is the head of the \<open>for\<close> loop, \<open>M237\<close> the receive \<open><-link\<close> of the
  last line, \<open>M237close r\<close> the \<open>close\<close> of the received value \<open>r\<close>.
\<close>

datatype mainpc = M221 | M237 | M237close chanref | Returned | MainPanicked

text \<open>
  The state: the caller's program counter; the goroutines started so far, in order; all
  links made so far, in order (the caller's variable \<open>link\<close> is the last of them); the
  results received from the results channel by its reader, in order; whether the results
  channel is closed; the \<open>(bucket, key)\<close> arguments of the calls of \<open>c.Get\<close>, in call order.
\<close>

record gstate =
  main_pc :: mainpc
  gors :: "goroutine list"
  links :: "linkchan list"
  delivered :: "getResult list"
  results_closed :: bool
  calls :: "(string \<times> string) list"

text \<open>Lines 217 to 219: the first link holds the results channel and is closed.\<close>

definition GetAll_init :: gstate where
  "GetAll_init =
     \<lparr>main_pc = M221, gors = [], links = [\<lparr>l_buf = [ResultsChan], l_closed = True\<rparr>],
      delivered = [], results_closed = False, calls = []\<rparr>"

text \<open>
  A step of the caller. At \<open>M221\<close> it runs one iteration (a new link, a new goroutine
  about to call \<open>Get\<close>) or leaves the loop. At \<open>M237\<close> it receives from its \<open>link\<close>: a
  buffered value if there is one, the zero value if the channel is closed and empty;
  otherwise it blocks (\<open>None\<close>) until the sender of that link hands the value over, which is
  a step of the sender. \<open>close\<close> of a nil or closed channel panics.
\<close>

definition main_step :: "string list \<Rightarrow> gstate \<Rightarrow> gstate option" where
  "main_step keys s =
     (case main_pc s of
        M221 \<Rightarrow>
          if length (gors s) < length keys then
            Some (s\<lparr>gors := gors s @ [\<lparr>g_pc = L228, g_k = keys ! length (gors s), g_data = [],
                                        g_err = None, g_results = NilChan\<rparr>],
                    links := links s @ [\<lparr>l_buf = [], l_closed = False\<rparr>]\<rparr>)
          else Some (s\<lparr>main_pc := M237\<rparr>)
      | M237 \<Rightarrow>
          (let l = links s ! length (gors s) in
           case l_buf l of
             v # vs \<Rightarrow> Some (s\<lparr>links := (links s)[length (gors s) := l\<lparr>l_buf := vs\<rparr>],
                               main_pc := M237close v\<rparr>)
           | [] \<Rightarrow> if l_closed l then Some (s\<lparr>main_pc := M237close NilChan\<rparr>) else None)
      | M237close r \<Rightarrow>
          (case r of
             NilChan \<Rightarrow> Some (s\<lparr>main_pc := MainPanicked\<rparr>)
           | ResultsChan \<Rightarrow>
               if results_closed s then Some (s\<lparr>main_pc := MainPanicked\<rparr>)
               else Some (s\<lparr>results_closed := True, main_pc := Returned\<rparr>))
      | Returned \<Rightarrow> None
      | MainPanicked \<Rightarrow> None)"

text \<open>
  A step of the \<open>i\<close>-th goroutine.
  \<^item> \<open>L228\<close>: \<open>data, err := c.Get(bucket, k)\<close>.
  \<^item> \<open>L229\<close>: \<open>results := <-link\<close>, as the receive of the caller above.
  \<^item> \<open>L230\<close>: \<open>results <- getResult{...}\<close>. The reader of the results channel is taken to
    be receiving, so the send completes unless the channel is nil (blocks for ever) or
    closed (panics).
  \<^item> \<open>L231\<close>: \<open>nextLink <- results\<close>. The link is unbuffered: the send completes in one
    step with the receive of the next goroutine waiting at \<open>L229\<close>, or of the caller waiting
    at \<open>M237\<close> when this is the last goroutine; it blocks while neither waits, and
    panics on a closed link.
  \<^item> \<open>L232\<close>: \<open>close(nextLink)\<close>.
\<close>

definition go_step ::
  "(string \<Rightarrow> string \<Rightarrow> string \<times> error option) \<Rightarrow> string \<Rightarrow> nat \<Rightarrow> gstate \<Rightarrow> gstate option" where
  "go_step get b i s =
     (if length (gors s) \<le> i then None
      else
        (let g = gors s ! i in
         case g_pc g of
           L228 \<Rightarrow>
             Some (s\<lparr>gors := (gors s)[i := g\<lparr>g_data := fst (get b (g_k g)),
                                             g_err := snd (get b (g_k g)), g_pc := L229\<rparr>],
                     calls := calls s @ [(b, g_k g)]\<rparr>)
         | L229 \<Rightarrow>
             (let l = links s ! i in
              case l_buf l of
                v # vs \<Rightarrow> Some (s\<lparr>links := (links s)[i := l\<lparr>l_buf := vs\<rparr>],
                                  gors := (gors s)[i := g\<lparr>g_results := v, g_pc := L230\<rparr>]\<rparr>)
              | [] \<Rightarrow> if l_closed l
                      then Some (s\<lparr>gors := (gors s)[i := g\<lparr>g_results := NilChan, g_pc := L230\<rparr>]\<rparr>)
                      else None)
         | L230 \<Rightarrow>
             (case g_results g of
                NilChan \<Rightarrow> None
              | ResultsChan \<Rightarrow>
                  if results_closed s then Some (s\<lparr>gors := (gors s)[i := g\<lparr>g_pc := Panicked\<rparr>]\<rparr>)
                  else Some (s\<lparr>delivered := delivered s @
                                  [\<lparr>bucket = b, key = g_k g, data = g_data g, err = g_err g\<rparr>],
                                gors := (gors s)[i := g\<lparr>g_pc := L231\<rparr>]\<rparr>))
         | L231 \<Rightarrow>
             if l_closed (links s ! Suc i) then Some (s\<lparr>gors := (gors s)[i := g\<lparr>g_pc := Panicked\<rparr>]\<rparr>)
             else if Suc i < length (gors s) \<and> g_pc (gors s ! Suc i) = L229 then
               Some (s\<lparr>gors := (gors s)[i := g\<lparr>g_pc := L232\<rparr>,
                                          Suc i := (gors s ! Suc i)\<lparr>g_results := g_results g,
                                                                    g_pc := L230\<rparr>]\<rparr>)
             else if Suc i = length (gors s) \<and> main_pc s = M237 then
               Some (s\<lparr>gors := (gors s)[i := g\<lparr>g_pc := L232\<rparr>],
                       main_pc := M237close (g_results g)\<rparr>)
             else None
         | L232 \<Rightarrow>
             if l_closed (links s ! Suc i) then Some (s\<lparr>gors := (gors s)[i := g\<lparr>g_pc := Panicked\<rparr>]\<rparr>)
             else Some (s\<lparr>links := (links s)[Suc i := (links s ! Suc i)\<lparr>l_closed := True\<rparr>],
                          gors := (gors s)[i := g\<lparr>g_pc := Exited\<rparr>]\<rparr>)
         | Exited \<Rightarrow> None
         | Panicked \<Rightarrow> None))"

text \<open>
  A schedule is the list of the goroutines that take the successive steps; it is any list,
  so every order of the fetches and of the hand-overs is covered. \<open>GetAll_run\<close> is \<open>None\<close>
  for a schedule that names a goroutine that cannot step at its turn.
\<close>

datatype actor = Main | Go nat

definition GetAll_step ::
  "(string \<Rightarrow> string \<Rightarrow> string \<times> error option) \<Rightarrow> string \<Rightarrow> string list \<Rightarrow>
   actor \<Rightarrow> gstate \<Rightarrow> gstate option" where
  "GetAll_step get b keys a s = (case a of Main \<Rightarrow> main_step keys s | Go i \<Rightarrow> go_step get b i s)"

fun GetAll_run ::
  "(string \<Rightarrow> string \<Rightarrow> string \<times> error option) \<Rightarrow> string \<Rightarrow> string list \<Rightarrow>
   actor list \<Rightarrow> gstate \<Rightarrow> gstate option" where
  "GetAll_run get b keys [] s = Some s"
| "GetAll_run get b keys (a # as) s =
     (case GetAll_step get b keys a s of
        None \<Rightarrow> None
      | Some s' \<Rightarrow> GetAll_run get b keys as s')"

text \<open>A state is final when no goroutine can step.\<close>

definition GetAll_final ::
  "(string \<Rightarrow> string \<Rightarrow> string \<times> error option) \<Rightarrow> string \<Rightarrow> string list \<Rightarrow> gstate \<Rightarrow> bool" where
  "GetAll_final get b keys s =
     (main_step keys s = None \<and> list_all (\<lambda>i. go_step get b i s = None) [0..<length keys])"

subsection \<open>The invariant of the relay\<close>

text \<open>
  The results channel is the baton. A goroutine that has not received it yet is at line 228
  or 229; one that has handed it on is at line 232 or has exited.
\<close>

definition awaits_token :: "gpc \<Rightarrow> bool" where
  "awaits_token p = (p = L228 \<or> p = L229)"

definition token_passed :: "gpc \<Rightarrow> bool" where
  "token_passed p = (p = L232 \<or> p = Exited)"

text \<open>Lengths: a link per goroutine and the first one; no more results than goroutines.\<close>

definition inv_shape :: "string list \<Rightarrow> gstate \<Rightarrow> bool" where
  "inv_shape keys s =
     (length (gors s) \<le> length keys \<and> length (links s) = Suc (length (gors s)) \<and>
      length (delivered s) \<le> length (gors s))"

text \<open>The \<open>i\<close>-th goroutine holds the \<open>i\<close>-th key and, once past line 228, what \<open>Get\<close> gave.\<close>

definition inv_data ::
  "(string \<Rightarrow> string \<Rightarrow> string \<times> error option) \<Rightarrow> string \<Rightarrow> string list \<Rightarrow> gstate \<Rightarrow> bool" where
  "inv_data get b keys s =
     (\<forall>i<length (gors s).
        g_k (gors s ! i) = keys ! i \<and>
        (g_pc (gors s ! i) \<noteq> L228 \<longrightarrow>
           g_data (gors s ! i) = fst (get b (keys ! i)) \<and>
           g_err (gors s ! i) = snd (get b (keys ! i))))"

text \<open>What has been delivered is a prefix of the ordered stream.\<close>

definition inv_deliv ::
  "(string \<Rightarrow> string \<Rightarrow> string \<times> error option) \<Rightarrow> string \<Rightarrow> string list \<Rightarrow> gstate \<Rightarrow> bool" where
  "inv_deliv get b keys s =
     (delivered s = take (length (delivered s)) (GetAll_stream get b keys))"

text \<open>
  Where each goroutine stands relative to the number of results delivered: the goroutine
  about to send is the one whose index is that number, and it holds the results channel.
\<close>

definition inv_pos :: "gstate \<Rightarrow> bool" where
  "inv_pos s =
     (\<forall>i<length (gors s).
        (awaits_token (g_pc (gors s ! i)) \<longrightarrow> length (delivered s) \<le> i) \<and>
        (g_pc (gors s ! i) = L230 \<longrightarrow>
           i = length (delivered s) \<and> g_results (gors s ! i) = ResultsChan) \<and>
        (g_pc (gors s ! i) = L231 \<longrightarrow>
           Suc i = length (delivered s) \<and> g_results (gors s ! i) = ResultsChan) \<and>
        (token_passed (g_pc (gors s ! i)) \<longrightarrow> i < length (delivered s)) \<and>
        g_pc (gors s ! i) \<noteq> Panicked)"

text \<open>Neighbours: a goroutine has received exactly when its predecessor has handed on.\<close>

definition inv_nbr :: "gstate \<Rightarrow> bool" where
  "inv_nbr s =
     (\<forall>i. Suc i < length (gors s) \<longrightarrow>
        (awaits_token (g_pc (gors s ! Suc i)) \<longrightarrow> \<not> token_passed (g_pc (gors s ! i))) \<and>
        (g_pc (gors s ! Suc i) = L230 \<longrightarrow> token_passed (g_pc (gors s ! i))))"

text \<open>The first link still buffers the results channel exactly while its reader waits.\<close>

definition inv_buf0 :: "gstate \<Rightarrow> bool" where
  "inv_buf0 s =
     (l_buf (links s ! 0) =
        (if (gors s = [] \<and> (main_pc s = M221 \<or> main_pc s = M237)) \<or>
            (gors s \<noteq> [] \<and> awaits_token (g_pc (gors s ! 0)))
         then [ResultsChan] else []))"

text \<open>The other links buffer nothing and are closed only by a goroutine that has exited.\<close>

definition inv_links :: "gstate \<Rightarrow> bool" where
  "inv_links s =
     (\<forall>j<length (gors s).
        l_buf (links s ! Suc j) = [] \<and>
        (l_closed (links s ! Suc j) \<longrightarrow> g_pc (gors s ! j) = Exited))"

text \<open>The caller: it closes the results channel last, after every result is delivered.\<close>

definition inv_main :: "string list \<Rightarrow> gstate \<Rightarrow> bool" where
  "inv_main keys s =
     (case main_pc s of
        M221 \<Rightarrow> \<not> results_closed s \<and>
                (\<forall>i. Suc i = length (gors s) \<longrightarrow> \<not> token_passed (g_pc (gors s ! i)))
      | M237 \<Rightarrow> \<not> results_closed s \<and> length (gors s) = length keys \<and>
                (\<forall>i. Suc i = length (gors s) \<longrightarrow> \<not> token_passed (g_pc (gors s ! i)))
      | M237close r \<Rightarrow> \<not> results_closed s \<and> r = ResultsChan \<and>
                length (gors s) = length keys \<and> length (delivered s) = length keys \<and>
                (\<forall>i. Suc i = length (gors s) \<longrightarrow> token_passed (g_pc (gors s ! i)))
      | Returned \<Rightarrow> results_closed s \<and>
                length (gors s) = length keys \<and> length (delivered s) = length keys \<and>
                (\<forall>i. Suc i = length (gors s) \<longrightarrow> token_passed (g_pc (gors s ! i)))
      | MainPanicked \<Rightarrow> False)"

text \<open>The calls of \<open>Get\<close> made so far are those of the goroutines past line 228.\<close>

definition inv_calls :: "string \<Rightarrow> gstate \<Rightarrow> bool" where
  "inv_calls b s =
     (mset (calls s) =
        mset (map (\<lambda>g. (b, g_k g)) (filter (\<lambda>g. g_pc g \<noteq> L228) (gors s))))"

definition GetAll_inv ::
  "(string \<Rightarrow> string \<Rightarrow> string \<times> error option) \<Rightarrow> string \<Rightarrow> string list \<Rightarrow> gstate \<Rightarrow> bool" where
  "GetAll_inv get b keys s =
     (inv_shape keys s \<and> inv_data get b keys s \<and> inv_deliv get b keys s \<and> inv_pos s \<and>
      inv_nbr s \<and> inv_buf0 s \<and> inv_links s \<and> inv_main keys s \<and> inv_calls b s)"

text \<open>
  A measure that every step increases: how far each goroutine and the caller have come,
  plus the number of goroutines started.
\<close>

fun gpc_rank :: "gpc \<Rightarrow> nat" where
  "gpc_rank L228 = 0"
| "gpc_rank L229 = 1"
| "gpc_rank L230 = 2"
| "gpc_rank L231 = 3"
| "gpc_rank L232 = 4"
| "gpc_rank Exited = 5"
| "gpc_rank Panicked = 6"

fun mainpc_rank :: "mainpc \<Rightarrow> nat" where
  "mainpc_rank M221 = 0"
| "mainpc_rank M237 = 1"
| "mainpc_rank (M237close r) = 2"
| "mainpc_rank Returned = 3"
| "mainpc_rank MainPanicked = 3"

definition progress :: "gstate \<Rightarrow> nat" where
  "progress s =
     sum_list (map (\<lambda>g. gpc_rank (g_pc g)) (gors s)) + length (gors s) + mainpc_rank (main_pc s)"

section \<open>Concrete scenarios\<close>

text \<open>
  A configuration, an empty world and two kinds of results on which the theorems below are
  instantiated: a bucket \<open>b\<close> with prefix \<open>p\<close> that holds an SSH key, two environment
  files and two git-credentials objects, with an agent and a sink that accept everything.
\<close>

definition scenario_conf :: Config where
  "scenario_conf =
     \<lparr>Repo = ''git@github.com:org/repo.git'', Bucket = ''b'', Prefix = ''p'',
      Client_Get = (\<lambda>b k. if k = ''env'' then (''A=1'', None)
                            else if k = ''p/env'' then (''B=2'' @ [CHR 0x0A], None)
                            else if k = ''git-credentials'' then (''secret'', None)
                            else if k = ''p/git-credentials'' then (''secret2'', None)
                            else if k = ''private_ssh_key'' then (''KEY'', None)
                            else ([], Some (Err ''NotFound''))),
      Client_BucketExists = (\<lambda>b. (True, None)),
      SSHAgent_Add = (\<lambda>h k. None),
      SSHAgent_Pid = 42,
      EnvSink_Write = (\<lambda>h p. None),
      GitCredentialHelper = ''/bin/helper''\<rparr>"

definition scenario_world :: world where
  "scenario_world = \<lparr>logs = [], adds = [], sink = [], gets = []\<rparr>"

definition failed_lookup :: "string \<Rightarrow> getResult" where
  "failed_lookup k = \<lparr>bucket = ''b'', key = k, data = [], err = Some (Err ''NotFound'')\<rparr>"

definition fetched :: "string \<Rightarrow> string \<Rightarrow> getResult" where
  "fetched k d = \<lparr>bucket = ''b'', key = k, data = d, err = None\<rparr>"

text \<open>
  For \<open>GetAll\<close>: the keys \<open>a\<close>, \<open>b\<close>, \<open>c\<close>, of which \<open>a\<close> is not found, and a schedule in
  which the fetches of \<open>b\<close> and \<open>c\<close> complete before that of \<open>a\<close>; then the state this
  schedule ends in.
\<close>

definition scenario_get :: "string \<Rightarrow> string \<Rightarrow> string \<times> error option" where
  "scenario_get b k =
     (if k = ''a'' then ([], Some (Err ''NotFound''))
      else if k = ''b'' then (''B'', None) else (''C'', None))"

definition scenario_schedule :: "actor list" where
  "scenario_schedule =
     [Main, Main, Main, Main, Go 1, Go 2, Go 0, Go 0, Go 0, Go 0, Go 0,
      Go 1, Go 1, Go 1, Go 2, Go 2, Go 2, Main]"

definition scenario_end :: gstate where
  "scenario_end =
     \<lparr>main_pc = Returned,
      gors =
        [\<lparr>g_pc = Exited, g_k = ''a'', g_data = [], g_err = Some (Err ''NotFound''),
          g_results = ResultsChan\<rparr>,
         \<lparr>g_pc = Exited, g_k = ''b'', g_data = ''B'', g_err = None, g_results = ResultsChan\<rparr>,
         \<lparr>g_pc = Exited, g_k = ''c'', g_data = ''C'', g_err = None, g_results = ResultsChan\<rparr>],
      links =
        [\<lparr>l_buf = [], l_closed = True\<rparr>, \<lparr>l_buf = [], l_closed = True\<rparr>,
         \<lparr>l_buf = [], l_closed = True\<rparr>, \<lparr>l_buf = [], l_closed = True\<rparr>],
      delivered =
        [\<lparr>bucket = ''bkt'', key = ''a'', data = [], err = Some (Err ''NotFound'')\<rparr>,
         \<lparr>bucket = ''bkt'', key = ''b'', data = ''B'', err = None\<rparr>,
         \<lparr>bucket = ''bkt'', key = ''c'', data = ''C'', err = None\<rparr>],
      results_closed = True,
      calls = [(''bkt'', ''b''), (''bkt'', ''c''), (''bkt'', ''a'')]\<rparr>"

definition scenario_end_empty :: gstate where
  "scenario_end_empty =
     \<lparr>main_pc = Returned, gors = [], links = [\<lparr>l_buf = [], l_closed = True\<rparr>],
      delivered = [], results_closed = True, calls = []\<rparr>"

lemmas scenario_defs = scenario_conf_def scenario_world_def failed_lookup_def fetched_def

section \<open>Failed lookups in the handlers\<close>

text \<open>
  A run of failed lookups at the front of the stream only adds one warning per failure to
  the log (in \<open>handleSSHKeys\<close> and \<open>handleEnvs\<close>) or nothing at all (in
  \<open>handleGitCredentials\<close>); the loop then goes on with its variables unchanged.
\<close>

lemma handleSSHKeys_loop_failures:
  "\<forall>r\<in>set fs. err r \<noteq> None \<Longrightarrow>
   handleSSHKeys_loop conf kf (fs @ rs) w =
   handleSSHKeys_loop conf kf rs
     (w\<lparr>logs := logs w @
         map (\<lambda>r. Printf ''+++ :warning: Failed to download ssh-key %s/%s: %v''
                     [ArgS (bucket r), ArgS (key r), ArgV (the (err r))]) fs\<rparr>)"
  by (induction fs arbitrary: w) (auto simp: log_Printf_def)

lemma handleEnvs_failures:
  "\<forall>r\<in>set fs. err r \<noteq> None \<Longrightarrow>
   handleEnvs conf (fs @ rs) w =
   handleEnvs conf rs
     (w\<lparr>logs := logs w @
         map (\<lambda>r. Printf ''+++ :warning: Failed to download env from %s/%s: %v''
                     [ArgS (bucket r), ArgS (key r), ArgV (the (err r))]) fs\<rparr>)"
  by (induction fs arbitrary: w) (auto simp: log_Printf_def)





section \<open>handleSSHKeys\<close>

text \<open>
  Claim C8. Zero keys are registered over the whole stream exactly when every result of the
  stream is a failed lookup (a fetched key is either added, or its \<open>Add\<close> error ends the
  handler before the stream is drained). In that case \<open>handleSSHKeys\<close> returns nil; its
  log is the one warning per failed lookup followed, if and only if the repository starts
  with \<open>git@\<close>, by the three lines of the advisory warning.
\<close>

theorem handleSSHKeys_no_key_found:
  assumes "\<forall>r\<in>set rs. err r \<noteq> None"
  shows "handleSSHKeys conf rs w =
     (Return None,
      w\<lparr>logs := logs w @
           map (\<lambda>r. Printf ''+++ :warning: Failed to download ssh-key %s/%s: %v''
                       [ArgS (bucket r), ArgS (key r), ArgV (the (err r))]) rs @
           (if HasPrefix (Repo conf) ''git@'' then
              [Printf ''+++ :warning: Failed to find an SSH key in secret bucket'' [],
               Printf ''The repository %q appears to use SSH for transport, but the elastic-ci-stack-s3-secrets-hooks plugin did not find any SSH keys in the %q S3 bucket.''
                 [ArgQ (Repo conf), ArgQ (Bucket conf)],
               Printf ''See https://github.com/buildkite/elastic-ci-stack-for-aws#build-secrets for more information.'' []]
            else [])\<rparr>)"
  using handleSSHKeys_loop_failures[OF assms, of conf False "[]" w]
  by (simp add: handleSSHKeys_def log_Printf_def)

theorem handleSSHKeys_no_key_found_witness:
  "err (failed_lookup ''p/private_ssh_key'') \<noteq> None
   \<and> err (failed_lookup ''private_ssh_key'') \<noteq> None
   \<and> HasPrefix (Repo scenario_conf) ''git@''
   \<and> fst (handleSSHKeys scenario_conf
             [failed_lookup ''p/private_ssh_key'', failed_lookup ''private_ssh_key''] scenario_world) = Return None
   \<and> length (logs (snd (handleSSHKeys scenario_conf
             [failed_lookup ''p/private_ssh_key'', failed_lookup ''private_ssh_key''] scenario_world))) = 5
   \<and> \<not> HasPrefix (Repo (scenario_conf\<lparr>Repo := ''https://github.com/org/repo.git''\<rparr>)) ''git@''
   \<and> fst (handleSSHKeys (scenario_conf\<lparr>Repo := ''https://github.com/org/repo.git''\<rparr>)
             [failed_lookup ''p/private_ssh_key'', failed_lookup ''private_ssh_key''] scenario_world) = Return None
   \<and> length (logs (snd (handleSSHKeys (scenario_conf\<lparr>Repo := ''https://github.com/org/repo.git''\<rparr>)
             [failed_lookup ''p/private_ssh_key'', failed_lookup ''private_ssh_key''] scenario_world))) = 2"
  using handleSSHKeys_no_key_found[of "[failed_lookup ''p/private_ssh_key'', failed_lookup ''private_ssh_key'']"
          scenario_conf scenario_world]
    handleSSHKeys_no_key_found[of "[failed_lookup ''p/private_ssh_key'', failed_lookup ''private_ssh_key'']"
          "scenario_conf\<lparr>Repo := ''https://github.com/org/repo.git''\<rparr>" scenario_world]
  by (simp add: scenario_defs HasPrefix_def)

section \<open>handleEnvs\<close>

text \<open>
  What \<open>handleEnvs\<close> hands to the sink, on any stream: in order, the payloads of the first
  \<open>n\<close> fetched results of the stream, each of them non-empty, each as it is when its last
  byte is a newline and with one newline appended otherwise; when the handler returns nil,
  \<open>n\<close> is the number of all fetched results of the stream. So every payload written ends
  with a newline, and the newline rule holds for every fetched result with a non-empty
  payload that the handler reaches.
\<close>

lemma handleEnvs_writes_newline_terminated:
  "\<exists>n. sink (snd (handleEnvs conf rs w)) =
         sink w @ map (\<lambda>d. if last d = CHR 0x0A then d else d @ [CHR 0x0A])
                      (take n (map data (filter (\<lambda>r. err r = None) rs)))
     \<and> (\<forall>d\<in>set (take n (map data (filter (\<lambda>r. err r = None) rs))). d \<noteq> [])
     \<and> (fst (handleEnvs conf rs w) = Return None \<longrightarrow>
          n = length (filter (\<lambda>r. err r = None) rs))"
proof (induction rs arbitrary: w)
  case Nil
  show ?case by simp
next
  case (Cons r rs)
  show ?case
  proof (cases "err r")
    case (Some e)
    then show ?thesis
      using Cons.IH[of "log_Printf ''+++ :warning: Failed to download env from %s/%s: %v''
               [ArgS (bucket r), ArgS (key r), ArgV e] w"]
      by (simp add: log_Printf_def)
  next
    case None
    show ?thesis
    proof (cases "data r = []")
      case True
      with None show ?thesis by (intro exI[of _ 0]) simp
    next
      case False
      let ?d = "if last (data r) \<noteq> CHR 0x0A then data r @ [CHR 0x0A] else data r"
      let ?w1 = "log_Printf ''Loading %s/%s (%d bytes) of env''
                        [ArgS (bucket r), ArgS (key r), ArgD (length (data r))] w"
      let ?w2 = "?w1\<lparr>sink := sink ?w1 @ [?d]\<rparr>"
      show ?thesis
      proof (cases "EnvSink_Write conf (sink ?w1) ?d")
        case wn: None
        from Cons.IH[of ?w2] obtain n where
          n: "sink (snd (handleEnvs conf rs ?w2)) =
                sink ?w2 @ map (\<lambda>d. if last d = CHR 0x0A then d else d @ [CHR 0x0A])
                      (take n (map data (filter (\<lambda>r. err r = None) rs)))"
             "\<forall>d\<in>set (take n (map data (filter (\<lambda>r. err r = None) rs))). d \<noteq> []"
             "fst (handleEnvs conf rs ?w2) = Return None \<longrightarrow>
                n = length (filter (\<lambda>r. err r = None) rs)"
          by blast
        have eq: "handleEnvs conf (r # rs) w = handleEnvs conf rs ?w2"
          using None False wn by (simp add: Let_def)
        show ?thesis
          apply (rule exI[of _ "Suc n"])
          using n None False unfolding eq by (simp add: log_Printf_def)
      next
        case (Some e)
        have eq: "handleEnvs conf (r # rs) w =
                    (Return (Some (Errorf ''copying env: %w'' [ArgW e])), ?w2)"
          using None False Some by (simp add: Let_def)
        show ?thesis
          apply (rule exI[of _ "Suc 0"])
          using None False unfolding eq by (simp add: log_Printf_def)
      qed
    qed
  qed
qed

lemma handleEnvs_writes_newline_terminated_example:
  "fst (handleEnvs scenario_conf
          [fetched ''env'' ''A=1'', failed_lookup ''environment'', fetched ''p/env'' (''B=2'' @ [CHR 0x0A])]
          scenario_world) = Return None
   \<and> sink (snd (handleEnvs scenario_conf
          [fetched ''env'' ''A=1'', failed_lookup ''environment'', fetched ''p/env'' (''B=2'' @ [CHR 0x0A])]
          scenario_world)) = [''A=1'' @ [CHR 0x0A], ''B=2'' @ [CHR 0x0A]]"
  using handleEnvs_writes_newline_terminated[of scenario_conf
          "[fetched ''env'' ''A=1'', failed_lookup ''environment'', fetched ''p/env'' (''B=2'' @ [CHR 0x0A])]"
          scenario_world]
  by (simp add: scenario_defs log_Printf_def)

text \<open>
  Claim C3, at a fetched result whose payload is empty (an empty \<open>env\<close> object in the
  bucket): the payload lacks a trailing newline, so the claim has \<open>handleEnvs\<close> write a
  single newline for it. The handler instead panics at \<open>data[len(data)-1]\<close> and nothing
  is written to the sink.
\<close>

theorem handleEnvs_empty_payload_not_written:
  "err (fetched ''env'' []) = None
   \<and> handleEnvs scenario_conf [fetched ''env'' []] scenario_world =
       (Panic ''runtime error: index out of range [-1]'', scenario_world)
   \<and> sink scenario_world = []"
  by (simp add: scenario_defs)

lemma handleEnvs_panic_cause:
  "\<exists>m. fst (handleEnvs conf rs w) = Panic m \<Longrightarrow> \<exists>r\<in>set rs. err r = None \<and> data r = []"
  by (induction rs arbitrary: w) (auto split: option.splits if_splits simp: Let_def)

text \<open>
  Claim C4. A fetched result with an empty payload, reached after any number of failed
  lookups, makes \<open>handleEnvs\<close> panic with an index out of range, before anything is written
  for it; and the handler does not panic on a stream in which every fetched payload is
  non-empty.
\<close>

theorem handleEnvs_panics_on_empty_payload:
  "((\<forall>p\<in>set pre. err p \<noteq> None) \<and> err r = None \<and> data r = [] \<longrightarrow>
      fst (handleEnvs conf (pre @ r # post) w) = Panic ''runtime error: index out of range [-1]''
      \<and> sink (snd (handleEnvs conf (pre @ r # post) w)) = sink w)
   \<and> ((\<forall>r\<in>set rs. err r = None \<longrightarrow> data r \<noteq> []) \<longrightarrow>
        (\<forall>m. fst (handleEnvs conf rs w) \<noteq> Panic m))"
proof (intro conjI impI)
  assume a: "(\<forall>p\<in>set pre. err p \<noteq> None) \<and> err r = None \<and> data r = []"
  then have "handleEnvs conf (pre @ r # post) w =
     (Panic ''runtime error: index out of range [-1]'',
      w\<lparr>logs := logs w @
         map (\<lambda>r. Printf ''+++ :warning: Failed to download env from %s/%s: %v''
                     [ArgS (bucket r), ArgS (key r), ArgV (the (err r))]) pre\<rparr>)"
    by (simp add: handleEnvs_failures)
  then show "fst (handleEnvs conf (pre @ r # post) w) = Panic ''runtime error: index out of range [-1]''"
    "sink (snd (handleEnvs conf (pre @ r # post) w)) = sink w"
    by simp_all
next
  assume "\<forall>r\<in>set rs. err r = None \<longrightarrow> data r \<noteq> []"
  then show "\<forall>m. fst (handleEnvs conf rs w) \<noteq> Panic m"
    using handleEnvs_panic_cause[of conf rs w] by blast
qed

theorem handleEnvs_panics_on_empty_payload_witness:
  "err (failed_lookup ''env'') \<noteq> None
   \<and> err (fetched ''environment'' []) = None
   \<and> data (fetched ''environment'' []) = []
   \<and> fst (handleEnvs scenario_conf
            ([failed_lookup ''env''] @ fetched ''environment'' [] # [fetched ''p/env'' ''A=1''])
            scenario_world)
        = Panic ''runtime error: index out of range [-1]''
   \<and> data (fetched ''p/env'' ''A=1'') \<noteq> []
   \<and> fst (handleEnvs scenario_conf [failed_lookup ''env'', fetched ''p/env'' ''A=1''] scenario_world)
        = Return None"
  using handleEnvs_panics_on_empty_payload[of "[failed_lookup ''env'']" "fetched ''environment'' []"
          scenario_conf "[fetched ''p/env'' ''A=1'']" scenario_world
          "[failed_lookup ''env'', fetched ''p/env'' ''A=1'']"]
  by (simp add: scenario_defs log_Printf_def)

section \<open>handleGitCredentials\<close>

lemma handleGitCredentials_loop_helpers:
  "fst (handleGitCredentials_loop conf hs rs w) =
     hs @ map (\<lambda>r. Sprintf (CHR 0x27 # ''credential.helper=%s %s %s'' @ [CHR 0x27])
                  [GitCredentialHelper conf, bucket r, key r]) (filter (\<lambda>r. err r = None) rs)"
  by (induction rs arbitrary: hs w) (auto split: option.splits)

lemma handleGitCredentials_loop_sink:
  "sink (snd (handleGitCredentials_loop conf hs rs w)) = sink w"
  by (induction rs arbitrary: hs w) (auto split: option.splits simp: log_Printf_def)

text \<open>
  Claim C5. The descriptors are the \<open>Sprintf\<close> values built for the fetched results of the
  stream, in stream order. With no descriptor \<open>handleGitCredentials\<close> passes nothing to the
  sink; otherwise it passes exactly one payload: \<open>GIT_CONFIG_PARAMETERS=\<close>, the
  descriptors joined by one space, and a newline.
\<close>

theorem handleGitCredentials_writes_one_line:
  "sink (snd (handleGitCredentials conf rs w)) =
     sink w @
     (if filter (\<lambda>r. err r = None) rs = [] then []
      else [''GIT_CONFIG_PARAMETERS='' @
            Join (map (\<lambda>r. Sprintf (CHR 0x27 # ''credential.helper=%s %s %s'' @ [CHR 0x27])
                              [GitCredentialHelper conf, bucket r, key r])
                      (filter (\<lambda>r. err r = None) rs)) '' '' @
            [CHR 0x0A]])"
proof -
  obtain hs w1 where l: "handleGitCredentials_loop conf [] rs w = (hs, w1)"
    by (cases "handleGitCredentials_loop conf [] rs w")
  have hs: "hs = map (\<lambda>r. Sprintf (CHR 0x27 # ''credential.helper=%s %s %s'' @ [CHR 0x27])
                              [GitCredentialHelper conf, bucket r, key r])
                      (filter (\<lambda>r. err r = None) rs)"
    using handleGitCredentials_loop_helpers[of conf "[]" rs w] l by simp
  have w1: "sink w1 = sink w"
    using handleGitCredentials_loop_sink[of conf "[]" rs w] l by simp
  show ?thesis
    unfolding handleGitCredentials_def l
    by (simp add: hs w1 Let_def split: option.splits del: Sprintf.simps)
qed

theorem handleGitCredentials_writes_one_line_witness:
  "sink (snd (handleGitCredentials scenario_conf
        [fetched ''git-credentials'' ''s1'', failed_lookup ''x'', fetched ''p/git-credentials'' ''s2'']
        scenario_world)) =
   [''GIT_CONFIG_PARAMETERS='' @ [CHR 0x27] @ ''credential.helper=/bin/helper b git-credentials'' @
    [CHR 0x27] @ '' '' @ [CHR 0x27] @ ''credential.helper=/bin/helper b p/git-credentials'' @
    [CHR 0x27, CHR 0x0A]]
   \<and> sink (snd (handleGitCredentials scenario_conf
        [failed_lookup ''git-credentials'', failed_lookup ''p/git-credentials''] scenario_world)) = []"
  using handleGitCredentials_writes_one_line[of scenario_conf
          "[fetched ''git-credentials'' ''s1'', failed_lookup ''x'', fetched ''p/git-credentials'' ''s2'']"
          scenario_world]
    handleGitCredentials_writes_one_line[of scenario_conf
          "[failed_lookup ''git-credentials'', failed_lookup ''p/git-credentials'']" scenario_world]
  by (simp add: scenario_defs)

text \<open>
  Claim C10. The descriptors the loop of \<open>handleGitCredentials\<close> has built when the stream
  is drained are, for the fetched results in stream order: a single quote,
  \<open>credential.helper=\<close>, the helper path, a space, the bucket, a space, the key, a single
  quote; the three operands are copied unchanged, whatever bytes they hold.
\<close>

theorem handleGitCredentials_descriptor:
  "fst (handleGitCredentials_loop conf [] rs w) =
     map (\<lambda>r. [CHR 0x27] @ ''credential.helper='' @ GitCredentialHelper conf @ '' '' @
               bucket r @ '' '' @ key r @ [CHR 0x27])
         (filter (\<lambda>r. err r = None) rs)"
  by (simp add: handleGitCredentials_loop_helpers)

section \<open>Run: the bucket check and the abort on a fatal error\<close>

lemma log_keys_fields [simp]:
  "adds (log_keys ks w) = adds w" "sink (log_keys ks w) = sink w" "gets (log_keys ks w) = gets w"
  by (induction ks arbitrary: w) (simp_all add: log_Printf_def)

lemma get_sink [simp]:
  "sink (snd (getSSHKeys conf w)) = sink w"
  "sink (snd (getEnvs conf w)) = sink w"
  "sink (snd (getGitCredentials conf w)) = sink w"
  by (simp_all add: getSSHKeys_def getEnvs_def getGitCredentials_def go_GetAll_def Let_def
        log_Printf_def)

lemma handleSSHKeys_loop_sink [simp]:
  "sink (snd (handleSSHKeys_loop conf kf rs w)) = sink w"
  by (induction rs arbitrary: kf w) (auto simp: log_Printf_def Let_def split: option.splits)

lemma handleSSHKeys_loop_Inl:
  "handleSSHKeys_loop conf kf rs w = (Inl x, w') \<Longrightarrow>
   \<exists>e. x = Errorf ''ssh-agent add: %w'' [ArgW e] \<and> adds w' \<noteq> [] \<and>
       SSHAgent_Add conf (butlast (adds w')) (last (adds w')) = Some e"
  by (induction rs arbitrary: kf w) (auto simp: log_Printf_def Let_def split: option.splits)

text \<open>
  Claim C2, as amended. When \<open>BucketExists\<close> answers that the bucket is absent, with or
  without an error, \<open>Run\<close> returns the error \<open>bucket %q not found\<close> on the bucket name. It
  has logged its first line, the warning, and the error of the check if there is one; no
  \<open>Get\<close>, \<open>Add\<close> or write has happened.
\<close>

theorem Run_bucket_absent:
  assumes "\<not> fst (Client_BucketExists conf (Bucket conf))"
  shows "Run conf w =
     (Return (Some (Errorf ''bucket %q not found'' [ArgQ (Bucket conf)])),
      w\<lparr>logs := logs w @
           [Printf ''~~~ Downloading secrets from :s3: %s'' [ArgS (Bucket conf)],
            Printf ''+++ :warning: Bucket %q doesn't exist'' [ArgQ (Bucket conf)]] @
           (case snd (Client_BucketExists conf (Bucket conf)) of
              Some e \<Rightarrow> [Println e] | None \<Rightarrow> [])\<rparr>)"
  using assms
  by (cases "Client_BucketExists conf (Bucket conf)")
     (simp add: Run_def Let_def log_Printf_def log_Println_def split: option.splits)

theorem Run_bucket_absent_witness:
  "\<not> fst (Client_BucketExists
            (scenario_conf\<lparr>Bucket := ''missing-bucket'', Client_BucketExists := (\<lambda>b. (False, None))\<rparr>)
            ''missing-bucket'')
   \<and> fst (Run (scenario_conf\<lparr>Bucket := ''missing-bucket'', Client_BucketExists := (\<lambda>b. (False, None))\<rparr>)
            scenario_world)
       = Return (Some (Errorf ''bucket %q not found'' [ArgQ ''missing-bucket'']))
   \<and> gets (snd (Run (scenario_conf\<lparr>Bucket := ''missing-bucket'',
                                     Client_BucketExists := (\<lambda>b. (False, None))\<rparr>)
                  scenario_world)) = []"
  using Run_bucket_absent[of "scenario_conf\<lparr>Bucket := ''missing-bucket'',
          Client_BucketExists := (\<lambda>b. (False, None))\<rparr>" scenario_world]
  by (simp add: scenario_defs)

text \<open>
  Claim C2 as stated fails when the existence check returns an error together with
  \<open>true\<close>: \<open>Run\<close> tests only the boolean, so it starts the three pipelines (ten \<open>Get\<close>
  calls) and, in this scenario, returns nil.
\<close>

theorem Run_bucket_check_error_ignored:
  "snd (Client_BucketExists
          (scenario_conf\<lparr>Client_BucketExists := (\<lambda>b. (True, Some (Err ''RequestTimeout'')))\<rparr>) ''b'')
      = Some (Err ''RequestTimeout'')
   \<and> fst (Run (scenario_conf\<lparr>Client_BucketExists := (\<lambda>b. (True, Some (Err ''RequestTimeout'')))\<rparr>)
            scenario_world)
      = Return None
   \<and> length (gets (snd (Run (scenario_conf\<lparr>Client_BucketExists :=
                                 (\<lambda>b. (True, Some (Err ''RequestTimeout'')))\<rparr>)
                          scenario_world))) = 10"
  by (simp add: scenario_defs Run_def getSSHKeys_def getEnvs_def getGitCredentials_def go_GetAll_def
       GetAll_stream_def handleSSHKeys_def handleGitCredentials_def Let_def log_Printf_def
       HasPrefix_def)

text \<open>
  Claim C7. Whenever \<open>SSHAgent.Add\<close> returns an error \<open>e\<close> for a fetched key, the loop of
  \<open>handleSSHKeys\<close> returns \<open>ssh-agent add: %w\<close> wrapping \<open>e\<close> at once. When the loop
  returns an error \<open>x\<close> on the SSH stream of a run, \<open>x\<close> is such a wrapped error of the last
  \<open>Add\<close> call made, and \<open>Run\<close> returns \<open>x\<close> in the very world the SSH handler left:
  \<open>handleEnvs\<close> and \<open>handleGitCredentials\<close> are not entered, nothing was written to the sink.
\<close>

theorem Run_aborts_on_ssh_agent_add_error:
  assumes "fst (Client_BucketExists conf (Bucket conf))"
    and "getSSHKeys conf (log_Printf ''~~~ Downloading secrets from :s3: %s'' [ArgS (Bucket conf)] w)
           = (resultsSSH, w1)"
    and "getEnvs conf w1 = (resultsEnv, w2)"
    and "getGitCredentials conf w2 = (resultsGit, w3)"
    and "handleSSHKeys_loop conf False resultsSSH w3 = (Inl x, w4)"
  shows "Run conf w = (Return (Some x), w4) \<and> sink w4 = sink w \<and>
         (\<exists>e. x = Errorf ''ssh-agent add: %w'' [ArgW e] \<and> adds w4 \<noteq> [] \<and>
              SSHAgent_Add conf (butlast (adds w4)) (last (adds w4)) = Some e) \<and>
         (\<forall>r rs keyFound v e. err r = None \<and> SSHAgent_Add conf (adds v) (data r) = Some e \<longrightarrow>
              fst (handleSSHKeys_loop conf keyFound (r # rs) v) =
                Inl (Errorf ''ssh-agent add: %w'' [ArgW e]))"
proof (intro conjI)
  show "Run conf w = (Return (Some x), w4)"
    using assms
    by (cases "Client_BucketExists conf (Bucket conf)")
       (simp add: Run_def Let_def handleSSHKeys_def)
  have "sink w4 = sink w3"
    using handleSSHKeys_loop_sink[of conf False resultsSSH w3] assms(5) by simp
  also have "sink w3 = sink w2" using get_sink(3)[of conf w2] assms(4) by simp
  also have "sink w2 = sink w1" using get_sink(2)[of conf w1] assms(3) by simp
  also have "sink w1 =
      sink (log_Printf ''~~~ Downloading secrets from :s3: %s'' [ArgS (Bucket conf)] w)"
    using get_sink(1)[of conf
            "log_Printf ''~~~ Downloading secrets from :s3: %s'' [ArgS (Bucket conf)] w"] assms(2)
    by simp
  also have "\<dots> = sink w" by (simp add: log_Printf_def)
  finally show "sink w4 = sink w" .
  show "\<exists>e. x = Errorf ''ssh-agent add: %w'' [ArgW e] \<and> adds w4 \<noteq> [] \<and>
              SSHAgent_Add conf (butlast (adds w4)) (last (adds w4)) = Some e"
    using handleSSHKeys_loop_Inl[OF assms(5)] .
  show "\<forall>r rs keyFound v e. err r = None \<and> SSHAgent_Add conf (adds v) (data r) = Some e \<longrightarrow>
              fst (handleSSHKeys_loop conf keyFound (r # rs) v) =
                Inl (Errorf ''ssh-agent add: %w'' [ArgW e])"
    by (simp add: log_Printf_def Let_def)
qed

theorem Run_aborts_on_ssh_agent_add_error_witness:
  "fst (Client_BucketExists (scenario_conf\<lparr>SSHAgent_Add := (\<lambda>h k. Some (Err ''agent refused''))\<rparr>) ''b'')
   \<and> fst (Run (scenario_conf\<lparr>SSHAgent_Add := (\<lambda>h k. Some (Err ''agent refused''))\<rparr>) scenario_world)
       = Return (Some (Errorf ''ssh-agent add: %w'' [ArgW (Err ''agent refused'')]))
   \<and> adds (snd (Run (scenario_conf\<lparr>SSHAgent_Add := (\<lambda>h k. Some (Err ''agent refused''))\<rparr>)
                  scenario_world)) = [''KEY'']
   \<and> sink (snd (Run (scenario_conf\<lparr>SSHAgent_Add := (\<lambda>h k. Some (Err ''agent refused''))\<rparr>)
                  scenario_world)) = []"
proof -
  let ?c = "scenario_conf\<lparr>SSHAgent_Add := (\<lambda>h k. Some (Err ''agent refused''))\<rparr>"
  let ?g1 = "getSSHKeys ?c (log_Printf ''~~~ Downloading secrets from :s3: %s'' [ArgS (Bucket ?c)]
                             scenario_world)"
  let ?g2 = "getEnvs ?c (snd ?g1)"
  let ?g3 = "getGitCredentials ?c (snd ?g2)"
  let ?h = "handleSSHKeys_loop ?c False (fst ?g1) (snd ?g3)"
  have ok: "fst (Client_BucketExists ?c (Bucket ?c))"
    by (simp add: scenario_defs)
  have h: "?h = (Inl (Errorf ''ssh-agent add: %w'' [ArgW (Err ''agent refused'')]), snd ?h)"
    by (simp add: scenario_defs getSSHKeys_def getEnvs_def getGitCredentials_def go_GetAll_def
          GetAll_stream_def Let_def log_Printf_def)
  have a: "adds (snd ?h) = [''KEY'']"
    by (simp add: scenario_defs getSSHKeys_def getEnvs_def getGitCredentials_def go_GetAll_def
          GetAll_stream_def Let_def log_Printf_def)
  from Run_aborts_on_ssh_agent_add_error[OF ok prod.collapse[symmetric] prod.collapse[symmetric]
         prod.collapse[symmetric] h]
  have "Run ?c scenario_world =
          (Return (Some (Errorf ''ssh-agent add: %w'' [ArgW (Err ''agent refused'')])), snd ?h)
        \<and> sink (snd ?h) = sink scenario_world"
    by simp
  then show ?thesis using a by (simp add: scenario_defs)
qed

section \<open>GetAll: ordered delivery under every schedule\<close>

subsection \<open>The invariant holds initially and is kept by every step\<close>

lemmas inv_defs = inv_shape_def inv_data_def inv_deliv_def inv_pos_def inv_nbr_def inv_buf0_def
  inv_links_def inv_main_def inv_calls_def

lemma inv_init: "GetAll_inv get b keys GetAll_init"
  by (simp add: GetAll_inv_def inv_defs GetAll_init_def)

lemma inv_posD:
  "inv_pos s \<Longrightarrow> j < length (gors s) \<Longrightarrow>
     (awaits_token (g_pc (gors s ! j)) \<longrightarrow> length (delivered s) \<le> j) \<and>
     (g_pc (gors s ! j) = L230 \<longrightarrow>
        j = length (delivered s) \<and> g_results (gors s ! j) = ResultsChan) \<and>
     (g_pc (gors s ! j) = L231 \<longrightarrow>
        Suc j = length (delivered s) \<and> g_results (gors s ! j) = ResultsChan) \<and>
     (token_passed (g_pc (gors s ! j)) \<longrightarrow> j < length (delivered s)) \<and>
     g_pc (gors s ! j) \<noteq> Panicked"
  unfolding inv_pos_def by blast

lemma inv_nbrD:
  "inv_nbr s \<Longrightarrow> Suc j < length (gors s) \<Longrightarrow>
     (awaits_token (g_pc (gors s ! Suc j)) \<longrightarrow> \<not> token_passed (g_pc (gors s ! j))) \<and>
     (g_pc (gors s ! Suc j) = L230 \<longrightarrow> token_passed (g_pc (gors s ! j)))"
  unfolding inv_nbr_def by blast

lemma inv_linksD:
  "inv_links s \<Longrightarrow> j < length (gors s) \<Longrightarrow>
     l_buf (links s ! Suc j) = [] \<and>
     (l_closed (links s ! Suc j) \<longrightarrow> g_pc (gors s ! j) = Exited)"
  unfolding inv_links_def by blast

lemma mset_map_filter_update:
  "i < length xs \<Longrightarrow>
   mset (map f (filter P (xs[i := x]))) + (if P (xs ! i) then {#f (xs ! i)#} else {#}) =
   mset (map f (filter P xs)) + (if P x then {#f x#} else {#})"
proof (induction xs arbitrary: i)
  case Nil
  then show ?case by simp
next
  case (Cons a xs)
  show ?case
  proof (cases i)
    case 0
    then show ?thesis by simp
  next
    case (Suc j)
    then have "j < length xs" using Cons.prems by simp
    from Cons.IH[OF this] show ?thesis using Suc by (auto split: if_splits)
  qed
qed

lemma go_fetch:
  assumes "GetAll_inv get b keys s" "i < length (gors s)" "g_pc (gors s ! i) = L228"
  shows "GetAll_inv get b keys
           (s\<lparr>gors := (gors s)[i := (gors s ! i)\<lparr>g_data := fst (get b (g_k (gors s ! i))),
                                             g_err := snd (get b (g_k (gors s ! i))), g_pc := L229\<rparr>],
                     calls := calls s @ [(b, g_k (gors s ! i))]\<rparr>)"
  using assms
  unfolding GetAll_inv_def
  apply (intro conjI)
  subgoal by (simp add: inv_shape_def)
  subgoal by (auto simp add: inv_data_def nth_list_update)
  subgoal by (simp add: inv_deliv_def)
  subgoal by (auto simp add: inv_pos_def nth_list_update awaits_token_def token_passed_def)
  subgoal by (auto simp add: inv_nbr_def nth_list_update awaits_token_def token_passed_def)
  subgoal by (cases i) (auto simp add: inv_buf0_def nth_list_update awaits_token_def)
  subgoal by (auto simp add: inv_links_def nth_list_update)
  subgoal by (auto simp add: inv_main_def nth_list_update token_passed_def split: mainpc.splits)
  subgoal using mset_map_filter_update[of i "gors s" "\<lambda>g. (b, g_k g)" "\<lambda>g. g_pc g \<noteq> L228"
                  "(gors s ! i)\<lparr>g_data := fst (get b (g_k (gors s ! i))),
                                             g_err := snd (get b (g_k (gors s ! i))), g_pc := L229\<rparr>"]
    by (simp add: inv_calls_def)
  done

lemma go_recv_facts:
  assumes "GetAll_inv get b keys s" "i < length (gors s)" "g_pc (gors s ! i) = L229"
  shows "(l_buf (links s ! i) = [] \<longrightarrow> \<not> l_closed (links s ! i))
       \<and> (l_buf (links s ! i) \<noteq> [] \<longrightarrow> i = 0 \<and> l_buf (links s ! 0) = [ResultsChan])"
proof (cases i)
  case 0
  then show ?thesis using assms unfolding GetAll_inv_def
    by (auto simp: inv_buf0_def awaits_token_def)
next
  case (Suc j)
  then show ?thesis using assms unfolding GetAll_inv_def inv_links_def inv_nbr_def
    by (auto simp: awaits_token_def token_passed_def)
qed

lemma go_recv:
  assumes "GetAll_inv get b keys s" "0 < length (gors s)" "g_pc (gors s ! 0) = L229"
  shows "GetAll_inv get b keys
           (s\<lparr>links := (links s)[0 := (links s ! 0)\<lparr>l_buf := []\<rparr>],
              gors := (gors s)[0 := (gors s ! 0)\<lparr>g_results := ResultsChan, g_pc := L230\<rparr>]\<rparr>)"
  using assms
  unfolding GetAll_inv_def
  apply (intro conjI)
  subgoal by (simp add: inv_shape_def)
  subgoal by (auto simp add: inv_data_def nth_list_update)
  subgoal by (simp add: inv_deliv_def)
  subgoal by (auto simp add: inv_pos_def nth_list_update awaits_token_def token_passed_def)
  subgoal by (auto simp add: inv_nbr_def nth_list_update awaits_token_def token_passed_def)
  subgoal by (auto simp add: inv_buf0_def inv_shape_def nth_list_update awaits_token_def)
  subgoal by (auto simp add: inv_links_def nth_list_update)
  subgoal by (auto simp add: inv_main_def nth_list_update token_passed_def split: mainpc.splits)
  subgoal using mset_map_filter_update[of 0 "gors s" "\<lambda>g. (b, g_k g)" "\<lambda>g. g_pc g \<noteq> L228"
                  "(gors s ! 0)\<lparr>g_results := ResultsChan, g_pc := L230\<rparr>"]
    by (simp add: inv_calls_def)
  done

lemma take_Suc_stream:
  "d < length keys \<Longrightarrow>
   take (Suc d) (GetAll_stream get b keys) =
   take d (GetAll_stream get b keys) @
     [\<lparr>bucket = b, key = keys ! d, data = fst (get b (keys ! d)), err = snd (get b (keys ! d))\<rparr>]"
  by (simp add: GetAll_stream_def take_Suc_conv_app_nth)


lemma go_send_facts:
  assumes "GetAll_inv get b keys s" "i < length (gors s)" "g_pc (gors s ! i) = L230"
  shows "i = length (delivered s)" "g_results (gors s ! i) = ResultsChan" "\<not> results_closed s"
        "i < length keys" "g_k (gors s ! i) = keys ! i"
        "g_data (gors s ! i) = fst (get b (keys ! i))" "g_err (gors s ! i) = snd (get b (keys ! i))"
proof -
  show d: "i = length (delivered s)" "g_results (gors s ! i) = ResultsChan"
    using assms unfolding GetAll_inv_def inv_pos_def by auto
  show "\<not> results_closed s"
    using assms d unfolding GetAll_inv_def inv_main_def inv_shape_def
    by (auto split: mainpc.splits)
  show "i < length keys" using assms unfolding GetAll_inv_def inv_shape_def by simp
  show "g_k (gors s ! i) = keys ! i" "g_data (gors s ! i) = fst (get b (keys ! i))"
     "g_err (gors s ! i) = snd (get b (keys ! i))"
    using assms unfolding GetAll_inv_def inv_data_def by auto
qed

lemma go_send_pos:
  assumes "inv_pos s" "inv_nbr s" "i < length (gors s)" "g_pc (gors s ! i) = L230"
  shows "inv_pos (s\<lparr>delivered := delivered s @ [r],
              gors := (gors s)[i := (gors s ! i)\<lparr>g_pc := L231\<rparr>]\<rparr>)"
    (is "inv_pos ?s'")
proof -
  have d: "i = length (delivered s)"
    using inv_posD[OF assms(1,3)] assms(4) by simp
  have "\<And>j. j < length (gors s) \<Longrightarrow>
     (awaits_token (g_pc (gors ?s' ! j)) \<longrightarrow> length (delivered ?s') \<le> j) \<and>
     (g_pc (gors ?s' ! j) = L230 \<longrightarrow>
        j = length (delivered ?s') \<and> g_results (gors ?s' ! j) = ResultsChan) \<and>
     (g_pc (gors ?s' ! j) = L231 \<longrightarrow>
        Suc j = length (delivered ?s') \<and> g_results (gors ?s' ! j) = ResultsChan) \<and>
     (token_passed (g_pc (gors ?s' ! j)) \<longrightarrow> j < length (delivered ?s')) \<and>
     g_pc (gors ?s' ! j) \<noteq> Panicked"
  proof -
    fix j assume j: "j < length (gors s)"
    have nb: "Suc j = i \<longrightarrow> token_passed (g_pc (gors s ! j))"
      using assms(2,3,4) unfolding inv_nbr_def by blast
    show "?thesis j"
      using inv_posD[OF assms(1) j] inv_posD[OF assms(1,3)] nb d assms(3,4) j
      by (auto simp add: nth_list_update awaits_token_def token_passed_def)
  qed
  then show ?thesis unfolding inv_pos_def by simp
qed

lemma go_send:
  assumes "GetAll_inv get b keys s" "i < length (gors s)" "g_pc (gors s ! i) = L230"
  shows "GetAll_inv get b keys
           (s\<lparr>delivered := delivered s @
                   [\<lparr>bucket = b, key = g_k (gors s ! i), data = g_data (gors s ! i),
                     err = g_err (gors s ! i)\<rparr>],
              gors := (gors s)[i := (gors s ! i)\<lparr>g_pc := L231\<rparr>]\<rparr>)"
proof -
  note f = go_send_facts[OF assms]
  show ?thesis
    using assms
    unfolding GetAll_inv_def
    apply (intro conjI)
    subgoal using f(1) by (simp add: inv_shape_def)
    subgoal by (auto simp add: inv_data_def nth_list_update)
    subgoal using take_Suc_stream[of i keys get b] f by (simp add: inv_deliv_def)
    subgoal using go_send_pos by blast
    subgoal by (auto simp add: inv_nbr_def nth_list_update awaits_token_def token_passed_def)
    subgoal by (cases i) (auto simp add: inv_buf0_def nth_list_update awaits_token_def)
    subgoal by (auto simp add: inv_links_def nth_list_update)
    subgoal using f(1) by (auto simp add: inv_main_def inv_shape_def nth_list_update token_passed_def split: mainpc.splits)
    subgoal using mset_map_filter_update[of i "gors s" "\<lambda>g. (b, g_k g)" "\<lambda>g. g_pc g \<noteq> L228"
                  "(gors s ! i)\<lparr>g_pc := L231\<rparr>"]
      by (simp add: inv_calls_def)
    done
qed

lemma go_pass_next_pos:
  assumes "inv_pos s" "i < length (gors s)" "g_pc (gors s ! i) = L231"
    "Suc i < length (gors s)" "g_pc (gors s ! Suc i) = L229"
  shows "inv_pos 
     (s\<lparr>gors := (gors s)[i := (gors s ! i)\<lparr>g_pc := L232\<rparr>,
                          Suc i := (gors s ! Suc i)\<lparr>g_results := g_results (gors s ! i), g_pc := L230\<rparr>]\<rparr>)"
    (is "inv_pos ?s'")
proof -
  have d: "length (delivered s) = Suc i" "g_results (gors s ! i) = ResultsChan"
    using inv_posD[OF assms(1,2)] assms(3) by simp_all
  have "\<And>j. j < length (gors s) \<Longrightarrow>
     (awaits_token (g_pc (gors ?s' ! j)) \<longrightarrow> length (delivered ?s') \<le> j) \<and>
     (g_pc (gors ?s' ! j) = L230 \<longrightarrow>
        j = length (delivered ?s') \<and> g_results (gors ?s' ! j) = ResultsChan) \<and>
     (g_pc (gors ?s' ! j) = L231 \<longrightarrow>
        Suc j = length (delivered ?s') \<and> g_results (gors ?s' ! j) = ResultsChan) \<and>
     (token_passed (g_pc (gors ?s' ! j)) \<longrightarrow> j < length (delivered ?s')) \<and>
     g_pc (gors ?s' ! j) \<noteq> Panicked"
  proof -
    fix j assume j: "j < length (gors s)"
    show "?thesis j" 
      using inv_posD[OF assms(1) j] d assms(2-) j
      by (auto simp add: nth_list_update awaits_token_def token_passed_def)
  qed
  then show ?thesis unfolding inv_pos_def by simp
qed

lemma go_pass_next_nbr:
  assumes "inv_nbr s" "i < length (gors s)" "g_pc (gors s ! i) = L231"
    "Suc i < length (gors s)" "g_pc (gors s ! Suc i) = L229"
  shows "inv_nbr
     (s\<lparr>gors := (gors s)[i := (gors s ! i)\<lparr>g_pc := L232\<rparr>,
                          Suc i := (gors s ! Suc i)\<lparr>g_results := g_results (gors s ! i), g_pc := L230\<rparr>]\<rparr>)"
    (is "inv_nbr ?s'")
proof -
  have "\<And>j. Suc j < length (gors s) \<Longrightarrow>
     (awaits_token (g_pc (gors ?s' ! Suc j)) \<longrightarrow> \<not> token_passed (g_pc (gors ?s' ! j))) \<and>
     (g_pc (gors ?s' ! Suc j) = L230 \<longrightarrow> token_passed (g_pc (gors ?s' ! j)))"
  proof -
    fix j assume j: "Suc j < length (gors s)"
    show "?thesis j"
      using inv_nbrD[OF assms(1) j] assms(2-) j
      by (auto simp add: nth_list_update awaits_token_def token_passed_def)
  qed
  then show ?thesis unfolding inv_nbr_def by simp
qed


lemma go_pass_facts:
  assumes "GetAll_inv get b keys s" "i < length (gors s)" "g_pc (gors s ! i) = L231"
  shows "length (delivered s) = Suc i" "g_results (gors s ! i) = ResultsChan"
    "\<not> l_closed (links s ! Suc i)"
proof -
  have p: "inv_pos s" and l: "inv_links s" using assms(1) unfolding GetAll_inv_def by simp_all
  show "length (delivered s) = Suc i" "g_results (gors s ! i) = ResultsChan"
    using inv_posD[OF p assms(2)] assms(3) by simp_all
  show "\<not> l_closed (links s ! Suc i)"
    using inv_linksD[OF l assms(2)] assms(3) by auto
qed

lemma go_pass_next:
  assumes "GetAll_inv get b keys s" "i < length (gors s)" "g_pc (gors s ! i) = L231"
    "Suc i < length (gors s)" "g_pc (gors s ! Suc i) = L229"
  shows "GetAll_inv get b keys
     (s\<lparr>gors := (gors s)[i := (gors s ! i)\<lparr>g_pc := L232\<rparr>,
                          Suc i := (gors s ! Suc i)\<lparr>g_results := g_results (gors s ! i), g_pc := L230\<rparr>]\<rparr>)"
    (is "GetAll_inv get b keys ?s'")
proof -
  have a: "inv_shape keys s" "inv_data get b keys s" "inv_deliv get b keys s" "inv_pos s"
     "inv_nbr s" "inv_buf0 s" "inv_links s" "inv_main keys s" "inv_calls b s"
    using assms(1) unfolding GetAll_inv_def by simp_all
  have 1: "inv_shape keys ?s'" using a(1) by (simp add: inv_shape_def)
  have 2: "inv_data get b keys ?s'"
    using a(2) assms(2-) by (auto simp add: inv_data_def nth_list_update)
  have 3: "inv_deliv get b keys ?s'" using a(3) by (simp add: inv_deliv_def)
  have 4: "inv_pos ?s'" using go_pass_next_pos[OF a(4) assms(2-)] .
  have 5: "inv_nbr ?s'" using go_pass_next_nbr[OF a(5) assms(2-)] .
  have 6: "inv_buf0 ?s'"
    using a(6) assms(2-) by (cases i) (auto simp add: inv_buf0_def nth_list_update awaits_token_def)
  have 7: "inv_links ?s'"
  proof -
    have "\<And>j. j < length (gors s) \<Longrightarrow> l_buf (links ?s' ! Suc j) = [] \<and>
        (l_closed (links ?s' ! Suc j) \<longrightarrow> g_pc (gors ?s' ! j) = Exited)"
    proof -
      fix j assume j: "j < length (gors s)"
      show "?thesis j"
        using inv_linksD[OF a(7) j] inv_linksD[OF a(7) assms(2)] inv_linksD[OF a(7) assms(4)]
          assms(2-) j
        by (auto simp add: nth_list_update)
    qed
    then show ?thesis unfolding inv_links_def by simp
  qed
  have 8: "inv_main keys ?s'"
  proof (cases "main_pc s")
    case M221
    then show ?thesis using a(8) assms(2-)
      by (auto simp add: inv_main_def nth_list_update token_passed_def)
  next
    case M237
    then show ?thesis using a(8) assms(2-)
      by (auto simp add: inv_main_def nth_list_update token_passed_def)
  next
    case (M237close r)
    then show ?thesis using a(8) assms(2-)
      by (auto simp add: inv_main_def nth_list_update token_passed_def)
  next
    case Returned
    then show ?thesis using a(8) assms(2-)
      by (auto simp add: inv_main_def nth_list_update token_passed_def)
  next
    case MainPanicked
    then show ?thesis using a(8) by (simp add: inv_main_def)
  qed
  have 9: "inv_calls b ?s'"
    using a(9) assms(2-)
      mset_map_filter_update[of i "gors s" "\<lambda>g. (b, g_k g)" "\<lambda>g. g_pc g \<noteq> L228"
                  "(gors s ! i)\<lparr>g_pc := L232\<rparr>"]
      mset_map_filter_update[of "Suc i" "(gors s)[i := (gors s ! i)\<lparr>g_pc := L232\<rparr>]"
                  "\<lambda>g. (b, g_k g)" "\<lambda>g. g_pc g \<noteq> L228"
                  "(gors s ! Suc i)\<lparr>g_results := g_results (gors s ! i), g_pc := L230\<rparr>"]
    by (simp add: inv_calls_def)
  show ?thesis unfolding GetAll_inv_def using 1 2 3 4 5 6 7 8 9 by blast
qed

lemma go_pass_main:
  assumes "GetAll_inv get b keys s" "i < length (gors s)" "g_pc (gors s ! i) = L231"
    "Suc i = length (gors s)" "main_pc s = M237"
  shows "GetAll_inv get b keys
     (s\<lparr>gors := (gors s)[i := (gors s ! i)\<lparr>g_pc := L232\<rparr>],
        main_pc := M237close (g_results (gors s ! i))\<rparr>)"
    (is "GetAll_inv get b keys ?s'")
proof -
  have a: "inv_shape keys s" "inv_data get b keys s" "inv_deliv get b keys s" "inv_pos s"
     "inv_nbr s" "inv_buf0 s" "inv_links s" "inv_main keys s" "inv_calls b s"
    using assms(1) unfolding GetAll_inv_def by simp_all
  note d = go_pass_facts[OF assms(1-3)]
  have 1: "inv_shape keys ?s'" using a(1) by (simp add: inv_shape_def)
  have 2: "inv_data get b keys ?s'"
    using a(2) assms(2-) by (auto simp add: inv_data_def nth_list_update)
  have 3: "inv_deliv get b keys ?s'" using a(3) by (simp add: inv_deliv_def)
  have 4: "inv_pos ?s'"
  proof -
    have "\<And>j. j < length (gors s) \<Longrightarrow>
     (awaits_token (g_pc (gors ?s' ! j)) \<longrightarrow> length (delivered ?s') \<le> j) \<and>
     (g_pc (gors ?s' ! j) = L230 \<longrightarrow>
        j = length (delivered ?s') \<and> g_results (gors ?s' ! j) = ResultsChan) \<and>
     (g_pc (gors ?s' ! j) = L231 \<longrightarrow>
        Suc j = length (delivered ?s') \<and> g_results (gors ?s' ! j) = ResultsChan) \<and>
     (token_passed (g_pc (gors ?s' ! j)) \<longrightarrow> j < length (delivered ?s')) \<and>
     g_pc (gors ?s' ! j) \<noteq> Panicked"
    proof -
      fix j assume j: "j < length (gors s)"
      show "?thesis j"
        using inv_posD[OF a(4) j] d assms(2-) j
        by (auto simp add: nth_list_update awaits_token_def token_passed_def)
    qed
    then show ?thesis unfolding inv_pos_def by simp
  qed
  have 5: "inv_nbr ?s'"
  proof -
    have "\<And>j. Suc j < length (gors s) \<Longrightarrow>
       (awaits_token (g_pc (gors ?s' ! Suc j)) \<longrightarrow> \<not> token_passed (g_pc (gors ?s' ! j))) \<and>
       (g_pc (gors ?s' ! Suc j) = L230 \<longrightarrow> token_passed (g_pc (gors ?s' ! j)))"
    proof -
      fix j assume j: "Suc j < length (gors s)"
      show "?thesis j"
        using inv_nbrD[OF a(5) j] assms(2-) j
        by (auto simp add: nth_list_update awaits_token_def token_passed_def)
    qed
    then show ?thesis unfolding inv_nbr_def by simp
  qed
  have 6: "inv_buf0 ?s'"
    using a(6) assms(2-) by (cases i) (auto simp add: inv_buf0_def nth_list_update awaits_token_def)
  have 7: "inv_links ?s'"
  proof -
    have "\<And>j. j < length (gors s) \<Longrightarrow> l_buf (links ?s' ! Suc j) = [] \<and>
        (l_closed (links ?s' ! Suc j) \<longrightarrow> g_pc (gors ?s' ! j) = Exited)"
    proof -
      fix j assume j: "j < length (gors s)"
      show "?thesis j"
        using inv_linksD[OF a(7) j] inv_linksD[OF a(7) assms(2)] assms(2-) j
        by (auto simp add: nth_list_update)
    qed
    then show ?thesis unfolding inv_links_def by simp
  qed
  have 8: "inv_main keys ?s'"
    using a(8) a(1) assms(2-) d
    by (auto simp add: inv_main_def inv_shape_def nth_list_update token_passed_def)
  have 9: "inv_calls b ?s'"
    using a(9) assms(2-)
      mset_map_filter_update[of i "gors s" "\<lambda>g. (b, g_k g)" "\<lambda>g. g_pc g \<noteq> L228"
                  "(gors s ! i)\<lparr>g_pc := L232\<rparr>"]
    by (simp add: inv_calls_def)
  show ?thesis unfolding GetAll_inv_def using 1 2 3 4 5 6 7 8 9 by blast
qed

lemma main_spawn:
  assumes "GetAll_inv get b keys s" "main_pc s = M221" "length (gors s) < length keys"
  shows "GetAll_inv get b keys
           (s\<lparr>gors := gors s @ [\<lparr>g_pc = L228, g_k = keys ! length (gors s), g_data = [],
                                        g_err = None, g_results = NilChan\<rparr>],
                    links := links s @ [\<lparr>l_buf = [], l_closed = False\<rparr>]\<rparr>)"
  using assms
  unfolding GetAll_inv_def
  apply (intro conjI)
  subgoal by (simp add: inv_shape_def)
  subgoal by (auto simp add: inv_data_def nth_append less_Suc_eq)
  subgoal by (simp add: inv_deliv_def)
  subgoal by (auto simp add: inv_pos_def inv_shape_def nth_append awaits_token_def token_passed_def less_Suc_eq)
  subgoal by (auto simp add: inv_nbr_def inv_main_def nth_append awaits_token_def token_passed_def less_Suc_eq)
  subgoal by (auto simp add: inv_buf0_def inv_shape_def nth_append awaits_token_def)
  subgoal by (auto simp add: inv_links_def inv_shape_def nth_append less_Suc_eq)
  subgoal by (auto simp add: inv_main_def token_passed_def)
  subgoal by (simp add: inv_calls_def)
  done

lemma main_exit_loop:
  assumes "GetAll_inv get b keys s" "main_pc s = M221" "\<not> length (gors s) < length keys"
  shows "GetAll_inv get b keys (s\<lparr>main_pc := M237\<rparr>)"
  using assms
  unfolding GetAll_inv_def
  apply (intro conjI)
  subgoal by (simp add: inv_shape_def)
  subgoal by (simp add: inv_data_def)
  subgoal by (simp add: inv_deliv_def)
  subgoal by (simp add: inv_pos_def)
  subgoal by (simp add: inv_nbr_def)
  subgoal by (simp add: inv_buf0_def)
  subgoal by (simp add: inv_links_def)
  subgoal by (simp add: inv_main_def inv_shape_def)
  subgoal by (simp add: inv_calls_def)
  done

lemma main_recv_blocked_or_buffered:
  assumes "GetAll_inv get b keys s" "main_pc s = M237"
  shows "(l_buf (links s ! length (gors s)) = [] \<longrightarrow> \<not> l_closed (links s ! length (gors s)))
       \<and> (l_buf (links s ! length (gors s)) \<noteq> [] \<longrightarrow>
            gors s = [] \<and> l_buf (links s ! 0) = [ResultsChan])"
  using assms
  unfolding GetAll_inv_def
  apply (cases "length (gors s)")
   apply (simp add: inv_buf0_def)
  apply (auto simp add: inv_links_def inv_main_def token_passed_def)
  done

lemma main_recv:
  assumes "GetAll_inv get b keys s" "main_pc s = M237" "gors s = []"
  shows "GetAll_inv get b keys
           (s\<lparr>links := (links s)[0 := (links s ! 0)\<lparr>l_buf := []\<rparr>],
              main_pc := M237close ResultsChan\<rparr>)"
  using assms
  unfolding GetAll_inv_def
  apply (intro conjI)
  subgoal by (simp add: inv_shape_def)
  subgoal by (simp add: inv_data_def)
  subgoal by (simp add: inv_deliv_def)
  subgoal by (simp add: inv_pos_def)
  subgoal by (simp add: inv_nbr_def)
  subgoal by (simp add: inv_buf0_def inv_shape_def)
  subgoal by (simp add: inv_links_def)
  subgoal by (simp add: inv_main_def inv_shape_def)
  subgoal by (simp add: inv_calls_def)
  done

lemma main_close:
  assumes "GetAll_inv get b keys s" "main_pc s = M237close r"
  shows "r = ResultsChan \<and> \<not> results_closed s \<and>
         GetAll_inv get b keys (s\<lparr>results_closed := True, main_pc := Returned\<rparr>)"
  using assms
  unfolding GetAll_inv_def
  apply (intro conjI)
  subgoal by (simp add: inv_main_def)
  subgoal by (simp add: inv_main_def)
  subgoal by (simp add: inv_shape_def)
  subgoal by (simp add: inv_data_def)
  subgoal by (simp add: inv_deliv_def)
  subgoal by (simp add: inv_pos_def)
  subgoal by (simp add: inv_nbr_def)
  subgoal by (simp add: inv_buf0_def)
  subgoal by (simp add: inv_links_def)
  subgoal by (simp add: inv_main_def)
  subgoal by (simp add: inv_calls_def)
  done

lemma main_step_inv:
  assumes "GetAll_inv get b keys s" "main_step keys s = Some s'"
  shows "GetAll_inv get b keys s'"
proof (cases "main_pc s")
  case M221
  then show ?thesis
    using assms main_spawn[OF assms(1) M221] main_exit_loop[OF assms(1) M221]
    by (auto simp: main_step_def split: if_splits)
next
  case M237
  show ?thesis
  proof (cases "l_buf (links s ! length (gors s))")
    case Nil
    then show ?thesis
      using assms M237 main_recv_blocked_or_buffered[OF assms(1) M237]
      by (simp add: main_step_def)
  next
    case (Cons v vs)
    then have e: "gors s = []" "l_buf (links s ! 0) = [ResultsChan]"
      using main_recv_blocked_or_buffered[OF assms(1) M237] by auto
    then have "s' = s\<lparr>links := (links s)[0 := (links s ! 0)\<lparr>l_buf := []\<rparr>],
              main_pc := M237close ResultsChan\<rparr>"
      using assms(2) M237 by (simp add: main_step_def)
    then show ?thesis using main_recv[OF assms(1) M237 e(1)] by simp
  qed
next
  case (M237close r)
  then show ?thesis
    using assms main_close[OF assms(1) M237close]
    by (auto simp: main_step_def)
next
  case Returned
  then show ?thesis using assms by (simp add: main_step_def)
next
  case MainPanicked
  then show ?thesis using assms by (simp add: main_step_def)
qed

lemma go_close:
  assumes "GetAll_inv get b keys s" "i < length (gors s)" "g_pc (gors s ! i) = L232"
  shows "GetAll_inv get b keys
     (s\<lparr>links := (links s)[Suc i := (links s ! Suc i)\<lparr>l_closed := True\<rparr>],
        gors := (gors s)[i := (gors s ! i)\<lparr>g_pc := Exited\<rparr>]\<rparr>)"
  using assms
  unfolding GetAll_inv_def
  apply (intro conjI)
  subgoal by (simp add: inv_shape_def)
  subgoal by (auto simp add: inv_data_def nth_list_update)
  subgoal by (simp add: inv_deliv_def)
  subgoal by (auto simp add: inv_pos_def nth_list_update awaits_token_def token_passed_def)
  subgoal by (auto simp add: inv_nbr_def nth_list_update awaits_token_def token_passed_def)
  subgoal by (cases i) (auto simp add: inv_buf0_def nth_list_update awaits_token_def)
  subgoal by (auto simp add: inv_links_def inv_shape_def nth_list_update)
  subgoal by (auto simp add: inv_main_def nth_list_update token_passed_def split: mainpc.splits)
  subgoal
    using mset_map_filter_update[of i "gors s" "\<lambda>g. (b, g_k g)" "\<lambda>g. g_pc g \<noteq> L228"
                "(gors s ! i)\<lparr>g_pc := Exited\<rparr>"]
    by (simp add: inv_calls_def)
  done

lemma go_step_inv:
  assumes "GetAll_inv get b keys s" "go_step get b i s = Some s'"
  shows "GetAll_inv get b keys s'"
proof -
  have i: "i < length (gors s)" using assms(2) by (auto simp: go_step_def split: if_splits)
  show ?thesis
  proof (cases "g_pc (gors s ! i)")
    case L228
    then show ?thesis using assms(2) i go_fetch[OF assms(1) i L228]
      by (auto simp: go_step_def Let_def)
  next
    case L229
    note f = go_recv_facts[OF assms(1) i L229]
    show ?thesis
    proof (cases "l_buf (links s ! i)")
      case Nil
      then show ?thesis using assms(2) i L229 f by (simp add: go_step_def Let_def)
    next
      case (Cons v vs)
      then have z: "i = 0" "l_buf (links s ! 0) = [ResultsChan]" using f by auto
      then show ?thesis using assms(2) i L229 go_recv[OF assms(1)]
        by (auto simp add: go_step_def Let_def)
    qed
  next
    case L230
    then show ?thesis
      using assms(2) i go_send[OF assms(1) i L230] go_send_facts(2,3)[OF assms(1) i L230]
      by (auto simp add: go_step_def Let_def)
  next
    case L231
    note f = go_pass_facts[OF assms(1) i L231]
    show ?thesis
      using assms(2) i L231 f(3) go_pass_next[OF assms(1) i L231] go_pass_main[OF assms(1) i L231]
      by (auto simp add: go_step_def Let_def split: if_splits)
  next
    case L232
    have "\<not> l_closed (links s ! Suc i)"
      using assms(1) i L232 unfolding GetAll_inv_def inv_links_def by auto
    then show ?thesis
      using assms(2) i L232 go_close[OF assms(1) i L232]
      by (auto simp add: go_step_def Let_def)
  next
    case Exited
    then show ?thesis using assms(2) i by (simp add: go_step_def Let_def)
  next
    case Panicked
    then show ?thesis using assms(2) i by (simp add: go_step_def Let_def)
  qed
qed

lemma GetAll_step_inv:
  "GetAll_inv get b keys s \<Longrightarrow> GetAll_step get b keys a s = Some s' \<Longrightarrow> GetAll_inv get b keys s'"
  by (cases a) (auto simp: GetAll_step_def intro: main_step_inv go_step_inv)

lemma GetAll_run_inv:
  "GetAll_inv get b keys s \<Longrightarrow> GetAll_run get b keys sched s = Some s' \<Longrightarrow> GetAll_inv get b keys s'"
  by (induction sched arbitrary: s) (auto split: option.splits dest: GetAll_step_inv)

subsection \<open>Every step makes progress\<close>

lemma sum_list_map_update:
  "i < length xs \<Longrightarrow>
   sum_list (map f (xs[i := x])) + f (xs ! i) = sum_list (map f xs) + (f x :: nat)"
proof (induction xs arbitrary: i)
  case Nil
  then show ?case by simp
next
  case (Cons a xs)
  show ?case
  proof (cases i)
    case 0
    then show ?thesis by simp
  next
    case (Suc j)
    then have "j < length xs" using Cons.prems by simp
    from Cons.IH[OF this] show ?thesis using Suc by simp
  qed
qed

lemma main_step_progress:
  "main_step keys s = Some s' \<Longrightarrow> progress s < progress s'"
  by (auto simp: main_step_def progress_def Let_def
      split: mainpc.splits if_splits list.splits chanref.splits)

lemma rank_update:
  assumes "i < length gs" "gpc_rank (g_pc (gs ! i)) < gpc_rank (g_pc g')"
  shows "sum_list (map (\<lambda>g. gpc_rank (g_pc g)) gs) <
         sum_list (map (\<lambda>g. gpc_rank (g_pc g)) (gs[i := g']))"
  using sum_list_map_update[OF assms(1), of "\<lambda>g. gpc_rank (g_pc g)" g'] assms(2)
  by linarith

lemma go_step_progress:
  assumes "go_step get b i s = Some s'"
  shows "progress s < progress s'"
proof -
  have i: "i < length (gors s)" using assms by (auto simp: go_step_def split: if_splits)
  show ?thesis
  proof (cases "g_pc (gors s ! i)")
    case L228
    then show ?thesis using assms i rank_update[OF i, of "(gors s ! i)\<lparr>g_data := fst (get b (g_k (gors s ! i))),
                                             g_err := snd (get b (g_k (gors s ! i))), g_pc := L229\<rparr>"]
      by (auto simp: go_step_def progress_def Let_def)
  next
    case L229
    then show ?thesis using assms i
        rank_update[OF i, of "(gors s ! i)\<lparr>g_results := hd (l_buf (links s ! i)), g_pc := L230\<rparr>"]
        rank_update[OF i, of "(gors s ! i)\<lparr>g_results := NilChan, g_pc := L230\<rparr>"]
      by (auto simp: go_step_def progress_def Let_def split: list.splits if_splits)
  next
    case L230
    then show ?thesis using assms i
        rank_update[OF i, of "(gors s ! i)\<lparr>g_pc := L231\<rparr>"]
        rank_update[OF i, of "(gors s ! i)\<lparr>g_pc := Panicked\<rparr>"]
      by (auto simp: go_step_def progress_def Let_def split: chanref.splits if_splits)
  next
    case L231
    have a: "sum_list (map (\<lambda>g. gpc_rank (g_pc g)) (gors s)) <
         sum_list (map (\<lambda>g. gpc_rank (g_pc g)) ((gors s)[i := (gors s ! i)\<lparr>g_pc := L232\<rparr>]))"
      using rank_update[OF i, of "(gors s ! i)\<lparr>g_pc := L232\<rparr>"] L231 by simp
    have b: "Suc i < length (gors s) \<Longrightarrow> g_pc (gors s ! Suc i) = L229 \<Longrightarrow>
         sum_list (map (\<lambda>g. gpc_rank (g_pc g)) ((gors s)[i := (gors s ! i)\<lparr>g_pc := L232\<rparr>])) <
         sum_list (map (\<lambda>g. gpc_rank (g_pc g)) ((gors s)[i := (gors s ! i)\<lparr>g_pc := L232\<rparr>,
             Suc i := (gors s ! Suc i)\<lparr>g_results := g_results (gors s ! i), g_pc := L230\<rparr>]))"
      using rank_update[of "Suc i" "(gors s)[i := (gors s ! i)\<lparr>g_pc := L232\<rparr>]"
          "(gors s ! Suc i)\<lparr>g_results := g_results (gors s ! i), g_pc := L230\<rparr>"]
      by simp
    show ?thesis using assms i L231 a b
        rank_update[OF i, of "(gors s ! i)\<lparr>g_pc := Panicked\<rparr>"]
      by (auto simp: go_step_def progress_def Let_def split: if_splits)
  next
    case L232
    then show ?thesis using assms i
        rank_update[OF i, of "(gors s ! i)\<lparr>g_pc := Exited\<rparr>"]
        rank_update[OF i, of "(gors s ! i)\<lparr>g_pc := Panicked\<rparr>"]
      by (auto simp: go_step_def progress_def Let_def split: if_splits)
  next
    case Exited
    then show ?thesis using assms i by (simp add: go_step_def Let_def)
  next
    case Panicked
    then show ?thesis using assms i by (simp add: go_step_def Let_def)
  qed
qed

lemma GetAll_step_progress:
  "GetAll_step get b keys a s = Some s' \<Longrightarrow> progress s < progress s'"
  by (cases a) (auto simp: GetAll_step_def dest: main_step_progress go_step_progress)

lemma GetAll_run_progress:
  "GetAll_run get b keys sched s = Some s' \<Longrightarrow> progress s + length sched \<le> progress s'"
proof (induction sched arbitrary: s)
  case Nil
  then show ?case by simp
next
  case (Cons a sched)
  then obtain s1 where s1: "GetAll_step get b keys a s = Some s1"
    "GetAll_run get b keys sched s1 = Some s'"
    by (auto split: option.splits)
  from GetAll_step_progress[OF s1(1)] Cons.IH[OF s1(2)] show ?case by simp
qed

lemma sum_list_bounded:
  "\<forall>x\<in>set xs. f x \<le> (c::nat) \<Longrightarrow> sum_list (map f xs) \<le> c * length xs"
  by (induction xs) (auto simp: add_mono)

lemma inv_progress_bound:
  assumes "GetAll_inv get b keys s"
  shows "progress s \<le> 6 * length keys + 3"
proof -
  have p: "inv_pos s" and sh: "inv_shape keys s" using assms unfolding GetAll_inv_def by simp_all
  have "\<And>g. g \<in> set (gors s) \<Longrightarrow> gpc_rank (g_pc g) \<le> 5"
  proof -
    fix g assume "g \<in> set (gors s)"
    then obtain j where "j < length (gors s)" "g = gors s ! j" by (auto simp: in_set_conv_nth)
    then have "g_pc g \<noteq> Panicked" using inv_posD[OF p] by simp
    then show "gpc_rank (g_pc g) \<le> 5" by (cases "g_pc g") simp_all
  qed
  then have "sum_list (map (\<lambda>g. gpc_rank (g_pc g)) (gors s)) \<le> 5 * length (gors s)"
    using sum_list_bounded[of "gors s" "\<lambda>g. gpc_rank (g_pc g)" 5] by blast
  moreover have "mainpc_rank (main_pc s) \<le> 3" by (cases "main_pc s") simp_all
  moreover have "length (gors s) \<le> length keys" using sh by (simp add: inv_shape_def)
  ultimately show ?thesis unfolding progress_def by linarith
qed

subsection \<open>A state in which nothing can step is the completed one\<close>

lemma go_blocked:
  assumes inv: "GetAll_inv get b keys s" and i: "i < length (gors s)"
    and blk: "go_step get b i s = None"
  shows "(g_pc (gors s ! i) = L229 \<and> l_buf (links s ! i) = [])
       \<or> (g_pc (gors s ! i) = L231 \<and>
            \<not> (Suc i < length (gors s) \<and> g_pc (gors s ! Suc i) = L229) \<and>
            \<not> (Suc i = length (gors s) \<and> main_pc s = M237))
       \<or> g_pc (gors s ! i) = Exited"
proof -
  have p: "inv_pos s" using inv unfolding GetAll_inv_def by simp
  note pi = inv_posD[OF p i]
  show ?thesis
  proof (cases "g_pc (gors s ! i)")
    case L228
    then show ?thesis using blk i by (simp add: go_step_def Let_def)
  next
    case L229
    then show ?thesis using blk i by (auto simp add: go_step_def Let_def split: list.splits)
  next
    case L230
    then show ?thesis using blk i pi by (auto simp add: go_step_def Let_def split: if_splits)
  next
    case L231
    then show ?thesis using blk i by (auto simp add: go_step_def Let_def split: if_splits)
  next
    case L232
    then show ?thesis using blk i by (auto simp add: go_step_def Let_def split: if_splits)
  next
    case Exited
    then show ?thesis by simp
  next
    case Panicked
    then show ?thesis using pi by simp
  qed
qed

lemma no_goroutine_waiting:
  assumes inv: "GetAll_inv get b keys s"
    and blk: "\<forall>j<length (gors s). go_step get b j s = None"
  shows "i < length (gors s) \<Longrightarrow> g_pc (gors s ! i) \<noteq> L229"
proof (induction i)
  case 0
  have b0: "inv_buf0 s" using inv unfolding GetAll_inv_def by simp
  show ?case
  proof
    assume w: "g_pc (gors s ! 0) = L229"
    then have "l_buf (links s ! 0) = [ResultsChan]"
      using b0 0 by (auto simp: inv_buf0_def awaits_token_def)
    moreover have "l_buf (links s ! 0) = []"
      using go_blocked[OF inv 0] blk 0 w by auto
    ultimately show False by simp
  qed
next
  case (Suc i)
  have nb: "inv_nbr s" using inv unfolding GetAll_inv_def by simp
  have i: "i < length (gors s)" using Suc.prems by simp
  show ?case
  proof
    assume w: "g_pc (gors s ! Suc i) = L229"
    then have np: "\<not> token_passed (g_pc (gors s ! i))"
      using inv_nbrD[OF nb Suc.prems] by (simp add: awaits_token_def)
    have "go_step get b i s = None" using blk i by simp
    from go_blocked[OF inv i this] show False
      using Suc.IH[OF i] np w Suc.prems by (auto simp: token_passed_def)
  qed
qed

lemma final_Returned:
  assumes inv: "GetAll_inv get b keys s" and fin: "GetAll_final get b keys s"
  shows "main_pc s = Returned"
proof -
  have m: "inv_main keys s" and b0: "inv_buf0 s" and sh: "inv_shape keys s"
    using inv unfolding GetAll_inv_def by simp_all
  have mb: "main_step keys s = None" using fin by (simp add: GetAll_final_def)
  have gb: "\<forall>j<length keys. go_step get b j s = None"
    using fin by (simp add: GetAll_final_def list_all_iff)
  show ?thesis
  proof (cases "main_pc s")
    case M221
    then show ?thesis using mb by (simp add: main_step_def split: if_splits)
  next
    case M237
    then have n: "length (gors s) = length keys" using m by (simp add: inv_main_def)
    then have gb': "\<forall>j<length (gors s). go_step get b j s = None" using gb by simp
    show ?thesis
    proof (cases "length (gors s)")
      case 0
      then have "l_buf (links s ! 0) = [ResultsChan]" using b0 M237 by (simp add: inv_buf0_def)
      then show ?thesis using mb M237 0 by (simp add: main_step_def Let_def)
    next
      case (Suc i)
      then have i: "i < length (gors s)" by simp
      have np: "\<not> token_passed (g_pc (gors s ! i))" using m M237 Suc by (simp add: inv_main_def)
      have "go_step get b i s = None" using gb' i by simp
      from go_blocked[OF inv i this] show ?thesis
        using no_goroutine_waiting[OF inv gb' i] np Suc M237 by (auto simp: token_passed_def)
    qed
  next
    case (M237close r)
    then show ?thesis using mb by (auto simp add: main_step_def split: chanref.splits if_splits)
  next
    case Returned
    then show ?thesis .
  next
    case MainPanicked
    then show ?thesis using m by (simp add: inv_main_def)
  qed
qed

lemma inv_Returned:
  assumes inv: "GetAll_inv get b keys s" and r: "main_pc s = Returned"
  shows "results_closed s" "delivered s = GetAll_stream get b keys"
    "mset (calls s) = mset (map (Pair b) keys)"
proof -
  have m: "inv_main keys s" and d: "inv_deliv get b keys s" and p: "inv_pos s"
    and c: "inv_calls b s" and dt: "inv_data get b keys s"
    using inv unfolding GetAll_inv_def by simp_all
  have l: "length (gors s) = length keys" "length (delivered s) = length keys"
    and rc: "results_closed s"
    using m r by (simp_all add: inv_main_def)
  show "results_closed s" by (rule rc)
  show "delivered s = GetAll_stream get b keys"
    using d l by (simp add: inv_deliv_def GetAll_stream_def)
  have "\<forall>g\<in>set (gors s). g_pc g \<noteq> L228"
  proof
    fix g assume "g \<in> set (gors s)"
    then obtain j where j: "j < length (gors s)" "g = gors s ! j" by (auto simp: in_set_conv_nth)
    then show "g_pc g \<noteq> L228" using inv_posD[OF p j(1)] l by (auto simp: awaits_token_def)
  qed
  then have f: "filter (\<lambda>g. g_pc g \<noteq> L228) (gors s) = gors s" by simp
  have "map g_k (gors s) = keys"
    using dt l by (auto simp: inv_data_def intro!: nth_equalityI)
  then have "map (\<lambda>g. (b, g_k g)) (gors s) = map (Pair b) keys"
    by (metis (no_types, lifting) map_map comp_apply map_eq_conv)
  then show "mset (calls s) = mset (map (Pair b) keys)"
    using c f by (simp add: inv_calls_def)
qed

lemma inv_no_panic:
  assumes inv: "GetAll_inv get b keys s"
  shows "main_pc s \<noteq> MainPanicked" "list_all (\<lambda>g. g_pc g \<noteq> Panicked) (gors s)"
proof -
  have m: "inv_main keys s" and p: "inv_pos s" using inv unfolding GetAll_inv_def by simp_all
  show "main_pc s \<noteq> MainPanicked" using m by (auto simp: inv_main_def)
  show "list_all (\<lambda>g. g_pc g \<noteq> Panicked) (gors s)"
    unfolding list_all_iff
  proof
    fix g assume "g \<in> set (gors s)"
    then obtain j where j: "j < length (gors s)" "g = gors s ! j" by (auto simp: in_set_conv_nth)
    then show "g_pc g \<noteq> Panicked" using inv_posD[OF p j(1)] by simp
  qed
qed

lemma inv_closed_Returned:
  "GetAll_inv get b keys s \<Longrightarrow> results_closed s \<Longrightarrow> main_pc s = Returned"
  unfolding GetAll_inv_def inv_main_def by (auto split: mainpc.splits)

lemma inv_calls_subset:
  assumes inv: "GetAll_inv get b keys s"
  shows "mset (calls s) \<subseteq># mset (map (Pair b) keys)"
proof -
  have c: "inv_calls b s" and dt: "inv_data get b keys s" and sh: "inv_shape keys s"
    using inv unfolding GetAll_inv_def by simp_all
  have "map g_k (gors s) = take (length (gors s)) keys"
    using dt sh by (auto simp: inv_data_def inv_shape_def intro!: nth_equalityI)
  then have e: "map (\<lambda>g. (b, g_k g)) (gors s) = map (Pair b) (take (length (gors s)) keys)"
    by (metis (no_types, lifting) map_map comp_apply map_eq_conv)
  have "mset (calls s) \<subseteq># mset (map (\<lambda>g. (b, g_k g)) (gors s))"
    using c by (simp add: inv_calls_def image_mset_subseteq_mono)
  also have "\<dots> = image_mset (Pair b) (mset (take (length (gors s)) keys))"
    using e by simp
  also have "\<dots> \<subseteq># image_mset (Pair b) (mset keys)"
    by (intro image_mset_subseteq_mono) (metis append_take_drop_id mset_append mset_subset_eq_add_left)
  finally show ?thesis by simp
qed

lemma GetAll_run_append:
  "GetAll_run get b keys (xs @ ys) s =
     (case GetAll_run get b keys xs s of None \<Rightarrow> None | Some s1 \<Rightarrow> GetAll_run get b keys ys s1)"
  by (induction xs arbitrary: s) (auto split: option.splits)

lemma not_final_step:
  assumes "\<not> GetAll_final get b keys s"
  shows "\<exists>a s1. GetAll_step get b keys a s = Some s1"
proof (cases "main_step keys s")
  case (Some s1)
  then have "GetAll_step get b keys Main s = Some s1" by (simp add: GetAll_step_def)
  then show ?thesis by blast
next
  case None
  then obtain i where "go_step get b i s \<noteq> None"
    using assms by (auto simp: GetAll_final_def list_all_iff)
  then obtain s1 where "go_step get b i s = Some s1" by auto
  then have "GetAll_step get b keys (Go i) s = Some s1" by (simp add: GetAll_step_def)
  then show ?thesis by blast
qed

lemma inv_completes:
  "GetAll_inv get b keys s \<Longrightarrow> 6 * length keys + 3 - progress s = m \<Longrightarrow>
   \<exists>sched s'. GetAll_run get b keys sched s = Some s' \<and> GetAll_final get b keys s'"
proof (induction m arbitrary: s rule: less_induct)
  case (less m)
  show ?case
  proof (cases "GetAll_final get b keys s")
    case True
    then have "GetAll_run get b keys [] s = Some s \<and> GetAll_final get b keys s" by simp
    then show ?thesis by blast
  next
    case False
    then obtain a s1 where st: "GetAll_step get b keys a s = Some s1"
      using not_final_step by blast
    have inv1: "GetAll_inv get b keys s1" using GetAll_step_inv[OF less.prems(1) st] .
    have "progress s < progress s1" using GetAll_step_progress[OF st] .
    moreover have "progress s1 \<le> 6 * length keys + 3" using inv_progress_bound[OF inv1] .
    ultimately have "6 * length keys + 3 - progress s1 < m" using less.prems(2) by linarith
    from less.IH[OF this inv1 refl] obtain sched s' where
      "GetAll_run get b keys sched s1 = Some s'" "GetAll_final get b keys s'" by blast
    then have "GetAll_run get b keys (a # sched) s = Some s' \<and> GetAll_final get b keys s'"
      using st by simp
    then show ?thesis by blast
  qed
qed

subsection \<open>What every schedule delivers\<close>

lemma scenario_run:
  "GetAll_run scenario_get ''bkt'' [''a'', ''b'', ''c''] scenario_schedule GetAll_init =
     Some scenario_end"
  by (simp add: scenario_get_def scenario_schedule_def scenario_end_def GetAll_init_def
        GetAll_step_def main_step_def go_step_def)

lemma scenario_final:
  "GetAll_final scenario_get ''bkt'' [''a'', ''b'', ''c''] scenario_end"
  by (simp add: scenario_end_def GetAll_final_def main_step_def go_step_def upt_rec)

lemma scenario_run_empty:
  "GetAll_run scenario_get ''bkt'' [] [Main, Main, Main] GetAll_init = Some scenario_end_empty"
  by (simp add: scenario_end_empty_def GetAll_init_def GetAll_step_def main_step_def)

text \<open>
  Claim C1. \<open>GetAll_stream\<close> has one result per key, the \<open>i\<close>-th made from the \<open>i\<close>-th key
  and what \<open>Get\<close> gives for it. Let \<open>s\<close> be the state after any schedule of \<open>GetAll\<close> on any
  keys and any \<open>Get\<close>, with a reader that receives whatever is sent on the results channel.
  Then
  \<^item> the results received so far are an initial segment of \<open>GetAll_stream\<close>;
  \<^item> if the results channel is closed, all of \<open>GetAll_stream\<close> has been received;
  \<^item> if no goroutine can step any more, the channel is closed and all of \<open>GetAll_stream\<close> has
    been received: there is no deadlock and no other way to stop;
  \<^item> nothing has panicked;
  \<^item> the schedule has at most \<open>6 * length keys + 3\<close> steps, so no schedule runs for ever;
  \<^item> the schedule can be continued to a state in which no goroutine can step.
  For the empty key list \<open>GetAll_stream\<close> is empty: the channel is closed with no result.
\<close>

theorem GetAll_delivers_in_order:
  assumes "GetAll_run get b keys sched GetAll_init = Some s"
  shows "length (GetAll_stream get b keys) = length keys
       \<and> (\<forall>i<length keys. GetAll_stream get b keys ! i =
            \<lparr>bucket = b, key = keys ! i, data = fst (get b (keys ! i)),
             err = snd (get b (keys ! i))\<rparr>)
       \<and> delivered s = take (length (delivered s)) (GetAll_stream get b keys)
       \<and> (results_closed s \<longrightarrow> delivered s = GetAll_stream get b keys)
       \<and> (GetAll_final get b keys s \<longrightarrow>
            results_closed s \<and> delivered s = GetAll_stream get b keys)
       \<and> main_pc s \<noteq> MainPanicked \<and> list_all (\<lambda>g. g_pc g \<noteq> Panicked) (gors s)
       \<and> length sched \<le> 6 * length keys + 3
       \<and> (\<exists>sched' s'. GetAll_run get b keys (sched @ sched') GetAll_init = Some s' \<and>
             GetAll_final get b keys s')"
proof -
  have inv: "GetAll_inv get b keys s" using GetAll_run_inv[OF inv_init assms] .
  have 0: "length (GetAll_stream get b keys) = length keys"
      "\<forall>i<length keys. GetAll_stream get b keys ! i =
            \<lparr>bucket = b, key = keys ! i, data = fst (get b (keys ! i)),
             err = snd (get b (keys ! i))\<rparr>"
    by (simp_all add: GetAll_stream_def)
  have 1: "delivered s = take (length (delivered s)) (GetAll_stream get b keys)"
    using inv unfolding GetAll_inv_def inv_deliv_def by simp
  have 2: "results_closed s \<longrightarrow> delivered s = GetAll_stream get b keys"
    using inv_Returned(2)[OF inv] inv_closed_Returned[OF inv] by blast
  have 3: "GetAll_final get b keys s \<longrightarrow>
            results_closed s \<and> delivered s = GetAll_stream get b keys"
    using inv_Returned(1,2)[OF inv] final_Returned[OF inv] by blast
  have 4: "length sched \<le> 6 * length keys + 3"
    using GetAll_run_progress[OF assms] inv_progress_bound[OF inv] by linarith
  obtain sched' s' where c: "GetAll_run get b keys sched' s = Some s'" "GetAll_final get b keys s'"
    using inv_completes[OF inv refl] by blast
  have 5: "\<exists>sched' s'. GetAll_run get b keys (sched @ sched') GetAll_init = Some s' \<and>
             GetAll_final get b keys s'"
    using c assms by (auto simp: GetAll_run_append)
  show ?thesis using 0 1 2 3 4 5 inv_no_panic[OF inv] by blast
qed

theorem GetAll_delivers_in_order_witness:
  "GetAll_run scenario_get ''bkt'' [''a'', ''b'', ''c''] scenario_schedule GetAll_init =
     Some scenario_end
   \<and> GetAll_final scenario_get ''bkt'' [''a'', ''b'', ''c''] scenario_end
   \<and> results_closed scenario_end
   \<and> delivered scenario_end =
       [\<lparr>bucket = ''bkt'', key = ''a'', data = [], err = Some (Err ''NotFound'')\<rparr>,
        \<lparr>bucket = ''bkt'', key = ''b'', data = ''B'', err = None\<rparr>,
        \<lparr>bucket = ''bkt'', key = ''c'', data = ''C'', err = None\<rparr>]
   \<and> map fst (calls scenario_end) = [''bkt'', ''bkt'', ''bkt'']
   \<and> map snd (calls scenario_end) = [''b'', ''c'', ''a'']
   \<and> GetAll_run scenario_get ''bkt'' [] [Main, Main, Main] GetAll_init = Some scenario_end_empty
   \<and> results_closed scenario_end_empty
   \<and> delivered scenario_end_empty = []"
  using GetAll_delivers_in_order[OF scenario_run] GetAll_delivers_in_order[OF scenario_run_empty]
    scenario_run scenario_final scenario_run_empty
  by (simp add: GetAll_stream_def scenario_get_def)
     (simp add: scenario_end_def scenario_end_empty_def)

text \<open>
  Claim C9. After any schedule, the calls of \<open>Get\<close> made so far are calls on the bucket
  and on keys of the list, no key called more often than it occurs in the list; and when
  no goroutine can step any more, the calls are, up to their order, exactly one call per
  key of the list, whatever \<open>Get\<close> answered.
\<close>

theorem GetAll_calls_Get_once_per_key:
  assumes "GetAll_run get b keys sched GetAll_init = Some s"
  shows "mset (calls s) \<subseteq># mset (map (Pair b) keys)
       \<and> (GetAll_final get b keys s \<longrightarrow> mset (calls s) = mset (map (Pair b) keys))"
proof -
  have inv: "GetAll_inv get b keys s" using GetAll_run_inv[OF inv_init assms] .
  show ?thesis
    using inv_calls_subset[OF inv] inv_Returned(3)[OF inv] final_Returned[OF inv] by blast
qed

theorem GetAll_calls_Get_once_per_key_witness:
  "GetAll_run scenario_get ''bkt'' [''a'', ''b'', ''c''] scenario_schedule GetAll_init =
     Some scenario_end
   \<and> GetAll_final scenario_get ''bkt'' [''a'', ''b'', ''c''] scenario_end
   \<and> mset (calls scenario_end) = {#(''bkt'', ''a''), (''bkt'', ''b''), (''bkt'', ''c'')#}"
  using GetAll_calls_Get_once_per_key[OF scenario_run] scenario_run scenario_final
  by simp

end
